theory Spec2Isabelle
  imports Main
begin

section \<open>Text and the Python string operations the parser uses\<close>

text \<open>
  The schematic is read as one Python \<open>str\<close>.  It is modelled as a \<open>string\<close>, one
  \<open>char\<close> per code point (code points below 256).  Python integers are \<open>int\<close>;
  offsets that are never negative in the source are \<open>nat\<close>.
\<close>

definition dquote :: char where
  "dquote = CHR 0x22"

definition backslash :: char where
  "backslash = CHR 0x5C"

definition newline :: char where
  "newline = CHR 0x0A"

definition tab :: char where
  "tab = CHR 0x09"

text \<open>\<open>str.isspace\<close> of one character, which is also what \<open>\s\<close> matches in a \<open>str\<close> pattern.\<close>

definition is_space :: "char \<Rightarrow> bool" where
  "is_space c \<longleftrightarrow> c \<in> set [CHR 0x09, CHR 0x0A, CHR 0x0B, CHR 0x0C, CHR 0x0D,
     CHR 0x1C, CHR 0x1D, CHR 0x1E, CHR 0x1F, CHR 0x20, CHR 0x85, CHR 0xA0]"

text \<open>A slice bound of Python: a negative bound counts from the end, and both are clipped.\<close>

definition clip_index :: "int \<Rightarrow> nat \<Rightarrow> nat" where
  "clip_index i n = (if i < 0 then nat (int n + i) else min (nat i) n)"

definition slice_to :: "int \<Rightarrow> 'a list \<Rightarrow> 'a list" where
  "slice_to i s = take (clip_index i (length s)) s"

definition slice_from :: "int \<Rightarrow> 'a list \<Rightarrow> 'a list" where
  "slice_from i s = drop (clip_index i (length s)) s"

definition slice :: "int \<Rightarrow> int \<Rightarrow> 'a list \<Rightarrow> 'a list" where
  "slice i j s = drop (clip_index i (length s)) (take (clip_index j (length s)) s)"

text \<open>\<open>s.startswith(p)\<close> and \<open>p in s\<close>.\<close>

definition startswith :: "string \<Rightarrow> string \<Rightarrow> bool" where
  "startswith s p \<longleftrightarrow> take (length p) s = p"

fun contains :: "string \<Rightarrow> string \<Rightarrow> bool" where
  "contains [] p = (p = [])"
| "contains (x # xs) p = (startswith (x # xs) p \<or> contains xs p)"

text \<open>\<open>s.rfind(c)\<close> for a single character: the last index of \<open>c\<close>, or \<open>-1\<close>.\<close>

fun rfind :: "string \<Rightarrow> char \<Rightarrow> int" where
  "rfind [] c = -1"
| "rfind (x # xs) c =
     (let r = rfind xs c in if r \<noteq> -1 then r + 1 else if x = c then 0 else -1)"

section \<open>Regular expressions\<close>

text \<open>
  The patterns of the program are sequences of literal text and of greedy repetitions
  of one character class (\<open>\s+\<close>, \<open>\s*\<close>, \<open>[^"]*\<close>, \<open>[^)]+\<close>, ...).  A pattern is a
  list of such items.  Matching is the backtracking search of Python's \<open>re\<close>: a
  repetition first takes as many characters as it can and gives them back one at a
  time while the rest of the pattern fails.  A match is reported as the text each item
  consumed, in order, and the text left after the match; a group of the source's
  pattern is the concatenation of the items it encloses.
\<close>

datatype cclass = Space | Non char

fun cmatch :: "cclass \<Rightarrow> char \<Rightarrow> bool" where
  "cmatch Space c = is_space c"
| "cmatch (Non x) c = (c \<noteq> x)"

datatype rx_item = Str string | One cclass | Star cclass | Plus cclass

type_synonym regex = "rx_item list"

fun backtrack :: "(nat \<Rightarrow> 'a option) \<Rightarrow> nat \<Rightarrow> nat \<Rightarrow> 'a option" where
  "backtrack f 0 m = (if 0 < m then None else f 0)"
| "backtrack f (Suc n) m =
     (if Suc n < m then None
      else case f (Suc n) of Some r \<Rightarrow> Some r | None \<Rightarrow> backtrack f n m)"

fun rmatch :: "regex \<Rightarrow> string \<Rightarrow> (string list \<times> string) option" where
  "rmatch [] s = Some ([], s)"
| "rmatch (Str l # p) s =
     (if take (length l) s = l
      then map_option (\<lambda>(gs, r). (l # gs, r)) (rmatch p (drop (length l) s))
      else None)"
| "rmatch (One c # p) s =
     (case s of
        [] \<Rightarrow> None
      | x # xs \<Rightarrow>
          (if cmatch c x then map_option (\<lambda>(gs, r). ([x] # gs, r)) (rmatch p xs) else None))"
| "rmatch (Star c # p) s =
     backtrack (\<lambda>k. map_option (\<lambda>(gs, r). (take k s # gs, r)) (rmatch p (drop k s)))
       (length (takeWhile (cmatch c) s)) 0"
| "rmatch (Plus c # p) s =
     backtrack (\<lambda>k. map_option (\<lambda>(gs, r). (take k s # gs, r)) (rmatch p (drop k s)))
       (length (takeWhile (cmatch c) s)) 1"

text \<open>\<open>re.search\<close>: the leftmost match, with its start offset.\<close>

fun rsearch :: "regex \<Rightarrow> string \<Rightarrow> (nat \<times> string list \<times> string) option" where
  "rsearch p [] = map_option (\<lambda>(gs, r). (0, gs, r)) (rmatch p [])"
| "rsearch p (x # xs) =
     (case rmatch p (x # xs) of
        Some (gs, r) \<Rightarrow> Some (0, gs, r)
      | None \<Rightarrow> map_option (\<lambda>(i, gs, r). (Suc i, gs, r)) (rsearch p xs))"

text \<open>
  \<open>re.finditer\<close> and \<open>re.sub\<close> walk over the non-overlapping matches from left to right.
  Every pattern of the program starts with a literal, so no match is empty; the special
  treatment Python gives to empty matches is not modelled, and the walk just steps over
  one character there.
\<close>

function rfinditer :: "regex \<Rightarrow> string \<Rightarrow> string list list" where
  "rfinditer p s =
     (case rmatch p s of
        Some (gs, r) \<Rightarrow>
          (if length r < length s then gs # rfinditer p r
           else (case s of [] \<Rightarrow> [gs] | x # xs \<Rightarrow> gs # rfinditer p xs))
      | None \<Rightarrow> (case s of [] \<Rightarrow> [] | x # xs \<Rightarrow> rfinditer p xs))"
  by pat_completeness auto
termination
  by (relation "measure (\<lambda>(p, s). length s)") auto

declare rfinditer.simps [simp del]

function rsub :: "regex \<Rightarrow> (string list \<Rightarrow> string) \<Rightarrow> string \<Rightarrow> string" where
  "rsub p repl s =
     (case rmatch p s of
        Some (gs, r) \<Rightarrow>
          (if length r < length s then repl gs @ rsub p repl r
           else (case s of [] \<Rightarrow> repl gs | x # xs \<Rightarrow> repl gs @ x # rsub p repl xs))
      | None \<Rightarrow> (case s of [] \<Rightarrow> [] | x # xs \<Rightarrow> x # rsub p repl xs))"
  by pat_completeness auto
termination
  by (relation "measure (\<lambda>(p, repl, s). length s)") auto

declare rsub.simps [simp del]

section \<open>The delimiter scanner\<close>

text \<open>
  \<open>KicadSchParser._find_matching_paren\<close>: the loop over \<open>i\<close> with its two variables
  \<open>depth\<close> and \<open>in_string\<close>; the result is the index of the closing parenthesis or \<open>-1\<close>.
\<close>

function paren_loop :: "string \<Rightarrow> int \<Rightarrow> bool \<Rightarrow> nat \<Rightarrow> int" where
  "paren_loop content depth in_string i =
     (if i < length content then
        (let c = content ! i in
         if c = dquote \<and> (i = 0 \<or> content ! (i - 1) \<noteq> backslash)
         then paren_loop content depth (\<not> in_string) (i + 1)
         else if \<not> in_string then
           (if c = CHR ''(''
            then paren_loop content (depth + 1) in_string (i + 1)
            else if c = CHR '')''
            then (if depth - 1 = 0 then int i
                  else paren_loop content (depth - 1) in_string (i + 1))
            else paren_loop content depth in_string (i + 1))
         else paren_loop content depth in_string (i + 1))
      else -1)"
  by pat_completeness auto
termination
  by (relation "measure (\<lambda>(content, depth, in_string, i). length content - i)") auto

declare paren_loop.simps [simp del]

definition find_matching_paren :: "string \<Rightarrow> nat \<Rightarrow> int" where
  "find_matching_paren content start = paren_loop content 0 False start"

section \<open>Components and the record extractor\<close>

text \<open>
  The dataclass \<open>Component\<close>.  Its field \<open>value\<close> is called \<open>comp_value\<close> here.  The
  dictionary \<open>properties\<close> is an association list in insertion order, as a Python
  \<open>dict\<close> is: storing under a key that is present replaces the value in place.
\<close>

type_synonym dict = "(string \<times> string) list"

fun dict_set :: "dict \<Rightarrow> string \<Rightarrow> string \<Rightarrow> dict" where
  "dict_set [] k v = [(k, v)]"
| "dict_set ((k', v') # d) k v = (if k' = k then (k, v) # d else (k', v') # dict_set d k v)"

fun dict_get :: "dict \<Rightarrow> string \<Rightarrow> string \<Rightarrow> string" where
  "dict_get [] k dflt = dflt"
| "dict_get ((k', v') # d) k dflt = (if k' = k then v' else dict_get d k dflt)"

record Component =
  lib_id :: string
  reference :: string
  comp_value :: string
  footprint :: string
  lcsc :: string
  url :: string
  start_pos :: int
  end_pos :: int
  raw_content :: string
  properties :: dict

text \<open>The state of a \<open>KicadSchParser\<close>: the buffer and the tracked components.\<close>

record Parser =
  content :: string
  components :: "Component list"

text \<open>\<^verbatim>\<open>\(symbol\s+\(lib_id\s+"([^"]+)"\)\<close>; group 1 is item 5.\<close>

definition symbol_pattern :: regex where
  "symbol_pattern = [Str ''(symbol'', Plus Space, Str ''(lib_id'', Plus Space,
     Str [dquote], Plus (Non dquote), Str [dquote, CHR '')'']]"

text \<open>\<^verbatim>\<open>\(lib_id\s+"([^"]+)"\)\<close>; group 1 is item 3.\<close>

definition lib_id_pattern :: regex where
  "lib_id_pattern = [Str ''(lib_id'', Plus Space, Str [dquote], Plus (Non dquote),
     Str [dquote, CHR '')'']]"

text \<open>\<^verbatim>\<open>\(property\s+"([^"]+)"\s+"([^"]*)"\s*\(at\s+[^)]+\)\<close>; groups 1 and 2 are items 3 and 7.\<close>

definition prop_pattern :: regex where
  "prop_pattern = [Str ''(property'', Plus Space, Str [dquote], Plus (Non dquote),
     Str [dquote], Plus Space, Str [dquote], Star (Non dquote), Str [dquote], Star Space,
     Str ''(at'', Plus Space, Plus (Non (CHR '')'')), Str '')'']"

definition is_power :: "string \<Rightarrow> bool" where
  "is_power lid \<longleftrightarrow> startswith lid ''power:'' \<or> contains lid '':PWR_''"

definition block_properties :: "string \<Rightarrow> dict" where
  "block_properties raw =
     foldl (\<lambda>d gs. dict_set d (gs ! 3) (gs ! 7)) [] (rfinditer prop_pattern raw)"

text \<open>\<open>KicadSchParser._parse_symbol_block\<close>; \<open>None\<close> is Python's \<open>None\<close>.\<close>

definition parse_symbol_block :: "string \<Rightarrow> int \<Rightarrow> int \<Rightarrow> Component option" where
  "parse_symbol_block raw start end =
     (case rsearch lib_id_pattern raw of
        None \<Rightarrow> None
      | Some (off, gs, rest) \<Rightarrow>
          (let lid = gs ! 3 in
           if is_power lid then None
           else
             (let props = block_properties raw;
                  ref = dict_get props ''Reference'' [];
                  val = dict_get props ''Value'' [];
                  fp = dict_get props ''Footprint'' []
              in if ref = [] \<or> startswith ref ''#'' then None
                 else Some \<lparr>lib_id = lid, reference = ref, comp_value = val, footprint = fp,
                        lcsc = dict_get props ''LCSC'' [], url = dict_get props ''URL'' [],
                        start_pos = start, end_pos = end, raw_content = raw,
                        properties = props\<rparr>)))"

subsection \<open>What a match tells about the text\<close>

lemma backtrack_Some:
  "backtrack f n m = Some r \<Longrightarrow> \<exists>k. m \<le> k \<and> k \<le> n \<and> f k = Some r"
proof (induction n)
  case 0
  then show ?case by (auto split: if_splits)
next
  case (Suc n)
  show ?case
  proof (cases "f (Suc n)")
    case None
    with Suc.prems have "backtrack f n m = Some r" by (simp split: if_splits)
    from Suc.IH[OF this] show ?thesis using le_SucI by blast
  next
    case (Some a)
    with Suc.prems have "\<not> Suc n < m" "f (Suc n) = Some r" by (auto split: if_splits)
    then show ?thesis by (intro exI[of _ "Suc n"]) simp
  qed
qed

lemma rmatch_sound:
  "rmatch p s = Some (gs, r) \<Longrightarrow> s = concat gs @ r \<and> length gs = length p"
proof (induction p s arbitrary: gs r rule: rmatch.induct)
  case (1 s)
  then show ?case by simp
next
  case (2 l p s)
  then show ?case
    by (auto split: if_splits) (metis append_take_drop_id)+
next
  case (3 c p s)
  then show ?case
    by (auto split: list.splits if_splits)
next
  case (4 c p s)
  from 4(2) obtain k where k: "map_option (\<lambda>(gs, r). (take k s # gs, r)) (rmatch p (drop k s)) = Some (gs, r)"
    by (auto dest: backtrack_Some)
  then obtain gs' where g: "rmatch p (drop k s) = Some (gs', r)" "gs = take k s # gs'"
    by auto
  from 4(1)[OF g(1)] g(2) show ?case
    by (metis append.assoc append_take_drop_id concat.simps(2) length_Cons)
next
  case (5 c p s)
  from 5(2) obtain k where k: "map_option (\<lambda>(gs, r). (take k s # gs, r)) (rmatch p (drop k s)) = Some (gs, r)"
    by (auto dest: backtrack_Some)
  then obtain gs' where g: "rmatch p (drop k s) = Some (gs', r)" "gs = take k s # gs'"
    by auto
  from 5(1)[OF g(1)] g(2) show ?case
    by (metis append.assoc append_take_drop_id concat.simps(2) length_Cons)
qed

lemma rmatch_Str_shorter:
  "rmatch (Str (c # l) # p) s = Some (gs, r) \<Longrightarrow> length r < length s"
proof -
  assume a: "rmatch (Str (c # l) # p) s = Some (gs, r)"
  then obtain gs' where "gs = (c # l) # gs'"
    by (auto split: if_splits)
  with rmatch_sound[OF a] show ?thesis by auto
qed

lemma rsearch_sound:
  "rsearch p s = Some (i, gs, r) \<Longrightarrow> i \<le> length s \<and> rmatch p (drop i s) = Some (gs, r)"
proof (induction s arbitrary: i)
  case Nil
  then show ?case by auto
next
  case (Cons x xs)
  then show ?case by (auto split: option.splits)
qed

lemma paren_loop_range:
  "paren_loop buf d b i = -1 \<or> (int i \<le> paren_loop buf d b i \<and> paren_loop buf d b i < int (length buf))"
proof (induction buf d b i rule: paren_loop.induct)
  case (1 buf depth in_string i)
  note eq = paren_loop.simps[of buf depth in_string i]
  show ?case
  proof (cases "i < length buf")
    case False
    then show ?thesis by (simp add: eq)
  next
    case True
    note IH = 1[OF True refl]
    show ?thesis using True IH
      by (auto simp: eq Let_def)
  qed
qed

lemma find_matching_paren_range:
  "find_matching_paren buf start = -1 \<or>
   (int start \<le> find_matching_paren buf start \<and> find_matching_paren buf start < int (length buf))"
  unfolding find_matching_paren_def by (rule paren_loop_range)

section \<open>The extraction loop\<close>

text \<open>
  \<open>KicadSchParser.parse\<close>: the \<open>while True\<close> loop over \<open>pos\<close>.  The search runs on
  \<open>content[pos:]\<close>; the loop ends when it finds nothing.
\<close>

function parse_loop :: "string \<Rightarrow> nat \<Rightarrow> Component list \<Rightarrow> Component list" where
  "parse_loop buf pos comps =
     (case rsearch symbol_pattern (drop pos buf) of
        None \<Rightarrow> comps
      | Some (off, gs, rest) \<Rightarrow>
          (let start = pos + off;
               end = find_matching_paren buf start
           in if end = -1 then parse_loop buf (start + 1) comps
              else
                (let raw = slice (int start) (end + 1) buf;
                     component = parse_symbol_block raw (int start) end
                 in parse_loop buf (nat (end + 1))
                      (case component of None \<Rightarrow> comps | Some c \<Rightarrow> comps @ [c]))))"
  by pat_completeness auto
termination
proof (relation "measure (\<lambda>(buf, pos, comps). length buf - pos)")
  show "wf (measure (\<lambda>(buf, pos, comps). length buf - pos))"
    by simp
next
  fix buf :: string and pos :: nat and comps :: "Component list" and x2 off y gs rest start e
  assume a: "rsearch symbol_pattern (drop pos buf) = Some x2" "(off, y) = x2" "(gs, rest) = y"
    and st: "start = pos + off"
  from a have m: "rsearch symbol_pattern (drop pos buf) = Some (off, gs, rest)"
    by simp
  from rsearch_sound[OF m]
  have m2: "rmatch symbol_pattern (drop off (drop pos buf)) = Some (gs, rest)"
    by simp
  have "length rest < length (drop off (drop pos buf))"
    using m2 unfolding symbol_pattern_def by (rule rmatch_Str_shorter)
  then have lt: "pos + off < length buf"
    by simp
  then show "((buf, start + 1, comps), buf, pos, comps) \<in> measure (\<lambda>(buf, pos, comps). length buf - pos)"
    using st by simp
  fix raw component
  assume e: "e = find_matching_paren buf start" "e \<noteq> - 1"
  from find_matching_paren_range[of buf start] e have "int start \<le> e"
    by simp
  then show "((buf, nat (e + 1), case component of None \<Rightarrow> comps | Some c \<Rightarrow> comps @ [c]), buf, pos, comps)
      \<in> measure (\<lambda>(buf, pos, comps). length buf - pos)"
    using lt st by simp
qed

declare parse_loop.simps [simp del]

definition parse :: "string \<Rightarrow> Component list" where
  "parse buf = parse_loop buf 0 []"

section \<open>The attribute patcher\<close>

text \<open>
  \<open>KicadSchParser._update_property\<close>.  The source builds its pattern and its replacement
  template by pasting \<open>prop_name\<close> and \<open>prop_value\<close> into them.  The embedding takes
  both as literal text, which is what Python does for a name without regular-expression
  metacharacters and a value without backslash (the callers pass the names \<open>LCSC\<close> and
  \<open>URL\<close>); \<open>regex_literal\<close> and \<open>template_literal\<close> say so in the theorems below.
\<close>

definition regex_literal :: "string \<Rightarrow> bool" where
  "regex_literal name \<longleftrightarrow> set name \<inter> set (backslash # ''.^$*+?{}[]|()'') = {}"

definition template_literal :: "string \<Rightarrow> bool" where
  "template_literal v \<longleftrightarrow> backslash \<notin> set v"

text \<open>\<^verbatim>\<open>(\(property\s+"NAME"\s+")[^"]*(")\<close>; group 1 is items 0 to 4, group 2 is item 6.\<close>

definition named_pattern :: "string \<Rightarrow> regex" where
  "named_pattern prop_name = [Str ''(property'', Plus Space, Str (dquote # prop_name @ [dquote]),
     Plus Space, Str [dquote], Star (Non dquote), Str [dquote]]"

text \<open>\<^verbatim>\<open>\(property\s+"Reference"[^(]*\(at\s+([^)]+)\)\<close>; group 1 is item 6.\<close>

definition ref_at_pattern :: regex where
  "ref_at_pattern = [Str ''(property'', Plus Space, Str (dquote # ''Reference'' @ [dquote]),
     Star (Non (CHR ''('')), Str ''(at'', Plus Space, Plus (Non (CHR '')'')), Str '')'']"

text \<open>\<^verbatim>\<open>\n(\s*)\(pin\s+"\<close> and \<^verbatim>\<open>\n(\s*)\(instances\s\<close>; group 1 is item 1.\<close>

definition pin_pattern :: regex where
  "pin_pattern = [Str [newline], Star Space, Str ''(pin'', Plus Space, Str [dquote]]"

definition instances_pattern :: regex where
  "instances_pattern = [Str [newline], Star Space, Str ''(instances'', One Space]"

text \<open>The replacement \<^verbatim>\<open>\g<1>VALUE\g<2>\<close>.\<close>

definition replacement :: "string \<Rightarrow> string list \<Rightarrow> string" where
  "replacement prop_value gs = concat (take 5 gs) @ prop_value @ gs ! 6"

text \<open>The f-string \<open>new_prop\<close>.\<close>

definition new_prop :: "string \<Rightarrow> string \<Rightarrow> string \<Rightarrow> string \<Rightarrow> string" where
  "new_prop indent prop_name prop_value at_coords =
     [newline] @ indent @ ''(property '' @ [dquote] @ prop_name @ [dquote] @ '' '' @
     [dquote] @ prop_value @ [dquote] @ '' (at '' @ at_coords @ '')'' @
     [newline] @ indent @ [tab] @ ''(effects (font (size 1.27 1.27)) hide)'' @
     [newline] @ indent @ '')''"

definition at_coords_of :: "string \<Rightarrow> string" where
  "at_coords_of raw =
     (case rsearch ref_at_pattern raw of Some (off, gs, rest) \<Rightarrow> gs ! 6 | None \<Rightarrow> ''0 0 0'')"

text \<open>The insertion point: before the first pin, else before \<open>instances\<close>, else the fallback.\<close>

definition insertion_point :: "string \<Rightarrow> int \<times> string" where
  "insertion_point raw =
     (case rsearch pin_pattern raw of
        Some (off, gs, rest) \<Rightarrow> (int off, gs ! 1)
      | None \<Rightarrow>
          (case rsearch instances_pattern raw of
             Some (off, gs, rest) \<Rightarrow> (int off, gs ! 1)
           | None \<Rightarrow> (rfind raw (CHR '')''), [tab, tab])))"

definition update_property :: "string \<Rightarrow> string \<Rightarrow> string \<Rightarrow> string" where
  "update_property raw prop_name prop_value =
     (if rsearch (named_pattern prop_name) raw \<noteq> None
      then rsub (named_pattern prop_name) (replacement prop_value) raw
      else
        (let at_coords = at_coords_of raw;
             (insert_pos, indent) = insertion_point raw
         in slice_to insert_pos raw @ new_prop indent prop_name prop_value at_coords @
            slice_from insert_pos raw))"

text \<open>
  \<open>KicadSchParser.update_component\<close>.  The argument \<open>component\<close> is one of the objects of
  \<open>self.components\<close>; it is given by its index \<open>k\<close> in that list.  The loop over
  \<open>self.components\<close> compares with \<open>component.start_pos\<close>, which the loop never changes.
\<close>

definition shift_after :: "int \<Rightarrow> int \<Rightarrow> Component \<Rightarrow> Component" where
  "shift_after pos diff cmp =
     (if start_pos cmp > pos
      then cmp\<lparr>start_pos := start_pos cmp + diff, end_pos := end_pos cmp + diff\<rparr>
      else cmp)"

definition update_component :: "Parser \<Rightarrow> nat \<Rightarrow> string \<Rightarrow> string \<Rightarrow> Parser" where
  "update_component st k new_lcsc new_url =
     (let component = components st ! k;
          raw = raw_content component;
          new_raw = update_property (update_property raw ''LCSC'' new_lcsc) ''URL'' new_url;
          buf = slice_to (start_pos component) (content st) @ new_raw @
                slice_from (end_pos component + 1) (content st);
          diff = int (length new_raw) - int (length (raw_content component));
          comps = map (shift_after (start_pos component) diff) (components st);
          component' = (comps ! k)\<lparr>raw_content := new_raw,
             end_pos := start_pos component + int (length new_raw) - 1,
             lcsc := new_lcsc, url := new_url\<rparr>
      in \<lparr>content = buf, components = comps[k := component']\<rparr>)"

section \<open>The batch insertion of \<open>fix_lcsc.py\<close>\<close>

text \<open>
  The end of \<open>add_lcsc_properties\<close>: the modifications, each an insertion offset and the
  text to insert, are sorted by offset, highest first (\<open>list.sort\<close> is stable, also with
  \<open>reverse=True\<close>), and spliced into the buffer in that order.
\<close>

definition splice :: "string \<Rightarrow> int \<times> string \<Rightarrow> string" where
  "splice buf m = slice_to (fst m) buf @ snd m @ slice_from (fst m) buf"

definition sort_reverse :: "(int \<times> string) list \<Rightarrow> (int \<times> string) list" where
  "sort_reverse mods = sort_key (\<lambda>m. - fst m) mods"

definition apply_modifications :: "string \<Rightarrow> (int \<times> string) list \<Rightarrow> string" where
  "apply_modifications buf mods = foldl splice buf (sort_reverse mods)"

text \<open>
  The other way, in the words of the specification: the insertions are applied one at
  a time, in the order given, and after each one every insertion still to come whose
  offset is greater has the length of the inserted text added to its offset.
\<close>

definition bump :: "int \<times> string \<Rightarrow> int \<times> string \<Rightarrow> int \<times> string" where
  "bump m m' = (if fst m' > fst m then (fst m' + int (length (snd m)), snd m') else m')"

fun apply_with_bookkeeping :: "string \<Rightarrow> (int \<times> string) list \<Rightarrow> string" where
  "apply_with_bookkeeping buf [] = buf"
| "apply_with_bookkeeping buf (m # mods) = apply_with_bookkeeping (splice buf m) (map (bump m) mods)"

section \<open>Manual entry of an identifier\<close>

text \<open>
  \<open>str.strip\<close>, \<open>str.upper\<close> and \<open>str.isdigit\<close> on code points below 256.  \<open>upper\<close> maps
  \<open>a\<close> to \<open>z\<close> and the accented small letters to their capitals and the sharp s to
  \<open>SS\<close>; the micro sign and the y with diaeresis, whose capitals lie above 255, are
  left as they are.
\<close>

definition strip :: "string \<Rightarrow> string" where
  "strip s = rev (dropWhile is_space (rev (dropWhile is_space s)))"

definition upper_char :: "char \<Rightarrow> string" where
  "upper_char c =
     (let n = (of_char c :: nat) in
      if 97 \<le> n \<and> n \<le> 122 then [char_of (n - 32)]
      else if n = 223 then ''SS''
      else if 224 \<le> n \<and> n \<le> 254 \<and> n \<noteq> 247 then [char_of (n - 32)]
      else [c])"

definition upper :: "string \<Rightarrow> string" where
  "upper s = concat (map upper_char s)"

definition is_digit_char :: "char \<Rightarrow> bool" where
  "is_digit_char c \<longleftrightarrow>
     (let n = (of_char c :: nat) in (48 \<le> n \<and> n \<le> 57) \<or> n = 178 \<or> n = 179 \<or> n = 185)"

definition isdigit :: "string \<Rightarrow> bool" where
  "isdigit s \<longleftrightarrow> s \<noteq> [] \<and> list_all is_digit_char s"

definition product_url :: "string \<Rightarrow> string" where
  "product_url lcsc_id = ''https://www.lcsc.com/product-detail/'' @ lcsc_id @ ''.html''"

text \<open>
  The branch \<open>choice == 'm'\<close> of \<open>prompt_selection\<close> (command line): \<open>Some\<close> is the
  returned pair, \<open>None\<close> the message \<open>Invalid LCSC ID\<close> and another turn of the loop.
\<close>

definition prompt_manual :: "string \<Rightarrow> (string \<times> string) option" where
  "prompt_manual typed =
     (let lcsc_id = upper (strip typed) in
      if lcsc_id \<noteq> [] \<and> startswith lcsc_id ''C'' then Some (lcsc_id, product_url lcsc_id)
      else None)"

text \<open>\<open>ComponentDialog._on_manual_entry\<close> (dialog): \<open>Some\<close> is the selection it stores.\<close>

definition on_manual_entry :: "string \<Rightarrow> (string \<times> string) option" where
  "on_manual_entry typed =
     (let lcsc_id = upper (strip typed) in
      if lcsc_id \<noteq> [] \<and> startswith lcsc_id ''C'' \<and> isdigit (slice_from 1 lcsc_id)
      then Some (lcsc_id, product_url lcsc_id)
      else None)"

text \<open>The shape the specification asks for: \<open>C\<close> followed by one or more digits \<open>0\<close> to \<open>9\<close>.\<close>

definition c_digits :: "string \<Rightarrow> bool" where
  "c_digits s \<longleftrightarrow>
     (case s of [] \<Rightarrow> False
      | c # ds \<Rightarrow> c = CHR ''C'' \<and> ds \<noteq> [] \<and> list_all (\<lambda>d. d \<in> set ''0123456789'') ds)"

section \<open>Helper facts about slices\<close>

lemma slice_to_from [simp]: "slice_to i s @ slice_from i s = s"
  by (simp add: slice_to_def slice_from_def)

lemma length_slices: "length (slice_to i s) + length (slice_from i s) = length s"
  by (simp add: slice_to_def slice_from_def)

lemma rfind_last: "rfind (s @ [c]) c = int (length s)"
  by (induction s) (auto simp: Let_def)

section \<open>Example inputs\<close>

text \<open>
  A block with a reference and neither pin nor instances; a block with a pin and no
  reference; a buffer of two blocks with their components.
\<close>

definition bare_body :: string where
  "bare_body = ''(symbol (lib_id '' @ [dquote] @ ''a'' @ [dquote] @ '') (property '' @ [dquote] @
     ''Reference'' @ [dquote] @ '' '' @ [dquote] @ ''R1'' @ [dquote] @ '' (at 1 2 0))''"

definition bare_block :: string where
  "bare_block = bare_body @ '')''"

definition bare_parser :: Parser where
  "bare_parser = \<lparr>content = bare_block, components = parse bare_block\<rparr>"

definition pin_block :: string where
  "pin_block = ''(symbol (lib_id '' @ [dquote] @ ''a'' @ [dquote] @ '')'' @ [newline] @
     '' (pin '' @ [dquote] @ ''1'' @ [dquote] @ ''))''"

definition ref_block :: "string \<Rightarrow> string" where
  "ref_block r = ''(symbol (lib_id '' @ [dquote] @ ''R'' @ [dquote] @ '') (property '' @ [dquote] @
     ''Reference'' @ [dquote] @ '' '' @ [dquote] @ r @ [dquote] @ '' (at 1 2 0))'' @ [newline] @
     ''(pin '' @ [dquote] @ ''1'' @ [dquote] @ ''))''"

definition two_parser :: Parser where
  "two_parser = \<lparr>content = ref_block ''R1'' @ ref_block ''R2'',
     components = parse (ref_block ''R1'' @ ref_block ''R2'')\<rparr>"

section \<open>The frame of an update (C2)\<close>

lemma update_component_components:
  assumes "k < length (components st)"
  shows "components (update_component st k l u) =
    (map (shift_after (start_pos (components st ! k))
        (int (length (update_property (update_property (raw_content (components st ! k)) ''LCSC'' l) ''URL'' u))
          - int (length (raw_content (components st ! k)))))
      (components st))
    [k := (components st ! k)\<lparr>raw_content := update_property (update_property (raw_content (components st ! k)) ''LCSC'' l) ''URL'' u,
        end_pos := start_pos (components st ! k) + int (length (update_property (update_property (raw_content (components st ! k)) ''LCSC'' l) ''URL'' u)) - 1,
        lcsc := l, url := u\<rparr>]"
  using assms by (simp add: update_component_def Let_def shift_after_def)

lemma clip_index_nat: "clip_index (int i) n = min i n"
  by (simp add: clip_index_def)

lemma slice_nat_bounds: "slice (int i) (int j) s = drop i (take j s)"
  by (simp add: slice_def clip_index_nat min_def)

lemma slice_to_nat: "slice_to (int i) s = take i s"
  by (simp add: slice_to_def clip_index_nat min_def)

lemma slice_from_nat: "slice_from (int i) s = drop i s"
  by (simp add: slice_from_def clip_index_nat min_def)

lemma drop_take_inserted:
  assumes "length P = A" and "length new = n"
  shows "drop (A + n + x) (take (A + n + y) (P @ new @ Z)) = drop x (take y Z)"
  using assms by simp

lemma slice_inserted_same:
  assumes "0 \<le> a" and "a \<le> b + 1" and "b < int (length buf)"
    and "b < s" and "s \<le> e + 1" and "e < int (length buf)"
    and "d = int (length new) - (b + 1 - a)"
  shows "slice (s + d) (e + d + 1) (slice_to a buf @ new @ slice_from (b + 1) buf) = slice s (e + 1) buf"
proof -
  define A where "A = nat a"
  define B where "B = nat (b + 1)"
  define x where "x = nat (s - (b + 1))"
  define y where "y = nat (e + 1 - (b + 1))"
  have a: "a = int A" and b: "b + 1 = int B" and s: "s = int (B + x)" and e: "e + 1 = int (B + y)"
    using assms by (simp_all add: A_def B_def x_def y_def)
  have AB: "A \<le> B" "B \<le> length buf"
    using assms a b e by linarith+
  have d: "s + d = int (A + length new + x)" "e + d + 1 = int (A + length new + y)"
    using assms(7) a b s e by linarith+
  have lP: "length (take A buf) = A"
    using AB by simp
  have "slice (s + d) (e + d + 1) (take A buf @ new @ drop B buf) =
      drop (A + length new + x) (take (A + length new + y) (take A buf @ new @ drop B buf))"
    unfolding d by (rule slice_nat_bounds)
  also have "\<dots> = drop x (take y (drop B buf))"
    using lP refl by (rule drop_take_inserted)
  also have "\<dots> = drop (B + x) (take (B + y) buf)"
    by (simp add: take_drop add.commute)
  also have "\<dots> = slice s (e + 1) buf"
    unfolding s e by (rule slice_nat_bounds[symmetric])
  finally show ?thesis
    unfolding a b slice_to_nat slice_from_nat .
qed

lemma slice_before_same:
  assumes "0 \<le> s" and "s \<le> e + 1" and "e < a" and "a \<le> int (length buf)"
  shows "slice s (e + 1) (slice_to a buf @ rest) = slice s (e + 1) buf"
proof -
  define A where "A = nat a"
  define S where "S = nat s"
  define E where "E = nat (e + 1)"
  have a: "a = int A" and s: "s = int S" and e: "e + 1 = int E" and EA: "E \<le> A"
    using assms by (simp_all add: A_def S_def E_def)
  have A: "A \<le> length buf"
    using assms a by linarith
  have "take E (take A buf @ rest) = take E buf"
    using EA A by (simp add: min_def)
  then show ?thesis
    unfolding a s e slice_to_nat slice_nat_bounds by simp
qed

lemma slice_new_block:
  assumes "0 \<le> a" and "a \<le> int (length buf)"
  shows "slice a (a + int (length new) - 1 + 1) (slice_to a buf @ new @ rest) = new"
proof -
  define A where "A = nat a"
  have a: "a = int A" and A: "A \<le> length buf"
    using assms by (simp_all add: A_def)
  have e: "a + int (length new) - 1 + 1 = int (A + length new)"
    using a by simp
  have lP: "length (take A buf) = A"
    using A by simp
  have "drop A (take (A + length new) (take A buf @ new @ rest)) = new"
    using lP by simp
  then show ?thesis
    unfolding e unfolding a slice_to_nat slice_nat_bounds .
qed

lemma length_inserted:
  assumes "0 \<le> a" and "a \<le> b + 1" and "b < int (length buf)"
  shows "int (length (slice_to a buf @ new @ slice_from (b + 1) buf)) =
         int (length buf) + (int (length new) - (b + 1 - a))"
proof -
  define A where "A = nat a"
  define B where "B = nat (b + 1)"
  have a: "a = int A" and b: "b + 1 = int B"
    using assms by (simp_all add: A_def B_def)
  have AB: "A \<le> B" "B \<le> length buf"
    using assms a b by linarith+
  show ?thesis
    unfolding a b slice_to_nat slice_from_nat using AB by simp
qed

lemma slice_length:
  assumes "0 \<le> a" and "a \<le> b + 1" and "b < int (length buf)"
  shows "int (length (slice a (b + 1) buf)) = b + 1 - a"
proof -
  define A where "A = nat a"
  define B where "B = nat (b + 1)"
  have a: "a = int A" and b: "b + 1 = int B"
    using assms by (simp_all add: A_def B_def)
  have AB: "A \<le> B" "B \<le> length buf"
    using assms a b by linarith+
  show ?thesis
    unfolding a b slice_nat_bounds using AB by simp
qed


lemma update_component_content:
  "content (update_component st k l u) =
     slice_to (start_pos (components st ! k)) (content st) @
     update_property (update_property (raw_content (components st ! k)) ''LCSC'' l) ''URL'' u @
     slice_from (end_pos (components st ! k) + 1) (content st)"
  by (simp add: update_component_def Let_def)

text \<open>
  Claim C2.  Let \<open>R\<close> (at index \<open>k\<close>) and \<open>S\<close> (at another index \<open>j\<close>) be tracked
  components, \<open>new_raw\<close> the block of \<open>R\<close> after the two upserts of \<open>update_component\<close>
  and \<open>delta\<close> the length of \<open>new_raw\<close> minus the length of the block before.  The
  update puts \<open>new_raw\<close> into the buffer in place of the old block and into \<open>R\<close>.  If
  the start of \<open>S\<close> was greater than the start of \<open>R\<close> before the update, then
  afterwards the start and the end of \<open>S\<close> are both greater by \<open>delta\<close> and nothing else
  of \<open>S\<close> has changed; otherwise \<open>S\<close> is unchanged.  The cached text and the properties
  of \<open>S\<close> are the same in both cases.

  When the offsets of \<open>R\<close> delimit its block in the buffer, the buffer grows by exactly
  \<open>delta\<close>, the new offsets of \<open>R\<close> delimit \<open>new_raw\<close>, and the offsets of a component
  that lies after or before the block of \<open>R\<close> delimit the same text as before.  The
  values are without backslash, as the source pastes them into a replacement template.
\<close>

theorem update_component_frame:
  assumes "k < length (components st)" and "j < length (components st)" and "j \<noteq> k"
    and "template_literal new_lcsc" and "template_literal new_url"
  shows "let R = components st ! k; S = components st ! j;
             new_raw = update_property (update_property (raw_content R) ''LCSC'' new_lcsc) ''URL'' new_url;
             delta = int (length new_raw) - int (length (raw_content R));
             st' = update_component st k new_lcsc new_url;
             R' = components st' ! k; S' = components st' ! j
         in content st' =
              slice_to (start_pos R) (content st) @ new_raw @ slice_from (end_pos R + 1) (content st) \<and>
            R' = R\<lparr>raw_content := new_raw, end_pos := start_pos R + int (length new_raw) - 1,
                      lcsc := new_lcsc, url := new_url\<rparr> \<and>
            length (components st') = length (components st) \<and>
            (if start_pos S > start_pos R
             then S' = S\<lparr>start_pos := start_pos S + delta, end_pos := end_pos S + delta\<rparr>
             else S' = S) \<and>
            raw_content S' = raw_content S \<and> properties S' = properties S \<and>
            (0 \<le> start_pos R \<and> start_pos R \<le> end_pos R \<and>
             end_pos R < int (length (content st)) \<and>
             slice (start_pos R) (end_pos R + 1) (content st) = raw_content R \<longrightarrow>
               int (length (content st')) = int (length (content st)) + delta \<and>
               slice (start_pos R') (end_pos R' + 1) (content st') = new_raw \<and>
               (end_pos R < start_pos S \<and> start_pos S \<le> end_pos S + 1 \<and>
                end_pos S < int (length (content st)) \<longrightarrow>
                  start_pos S' = start_pos S + delta \<and> end_pos S' = end_pos S + delta \<and>
                  slice (start_pos S') (end_pos S' + 1) (content st') =
                  slice (start_pos S) (end_pos S + 1) (content st)) \<and>
               (0 \<le> start_pos S \<and> start_pos S \<le> end_pos S + 1 \<and> end_pos S < start_pos R \<longrightarrow>
                  S' = S \<and>
                  slice (start_pos S') (end_pos S' + 1) (content st') =
                  slice (start_pos S) (end_pos S + 1) (content st)))"
proof -
  define R where "R = components st ! k"
  define S where "S = components st ! j"
  define new_raw where
    "new_raw = update_property (update_property (raw_content R) ''LCSC'' new_lcsc) ''URL'' new_url"
  define delta where "delta = int (length new_raw) - int (length (raw_content R))"
  define st' where "st' = update_component st k new_lcsc new_url"
  define R' where "R' = components st' ! k"
  define S' where "S' = components st' ! j"
  have buf: "content st' =
      slice_to (start_pos R) (content st) @ new_raw @ slice_from (end_pos R + 1) (content st)"
    unfolding st'_def new_raw_def R_def by (rule update_component_content)
  have comps: "components st' = (map (shift_after (start_pos R) delta) (components st))
      [k := R\<lparr>raw_content := new_raw, end_pos := start_pos R + int (length new_raw) - 1,
         lcsc := new_lcsc, url := new_url\<rparr>]"
    unfolding st'_def delta_def new_raw_def R_def using assms(1) by (rule update_component_components)
  have r: "R' = R\<lparr>raw_content := new_raw, end_pos := start_pos R + int (length new_raw) - 1,
                      lcsc := new_lcsc, url := new_url\<rparr>"
    unfolding R'_def comps using assms(1) by simp
  have len: "length (components st') = length (components st)"
    unfolding comps by simp
  have s: "S' = shift_after (start_pos R) delta S"
    unfolding S'_def comps S_def using assms(2,3) by simp
  have frame: "if start_pos S > start_pos R
             then S' = S\<lparr>start_pos := start_pos S + delta, end_pos := end_pos S + delta\<rparr>
             else S' = S"
    unfolding s by (simp add: shift_after_def)
  have same: "raw_content S' = raw_content S" "properties S' = properties S"
    unfolding s by (simp_all add: shift_after_def)
  have sync: "int (length (content st')) = int (length (content st)) + delta \<and>
               slice (start_pos R') (end_pos R' + 1) (content st') = new_raw \<and>
               (end_pos R < start_pos S \<and> start_pos S \<le> end_pos S + 1 \<and>
                end_pos S < int (length (content st)) \<longrightarrow>
                  start_pos S' = start_pos S + delta \<and> end_pos S' = end_pos S + delta \<and>
                  slice (start_pos S') (end_pos S' + 1) (content st') =
                  slice (start_pos S) (end_pos S + 1) (content st)) \<and>
               (0 \<le> start_pos S \<and> start_pos S \<le> end_pos S + 1 \<and> end_pos S < start_pos R \<longrightarrow>
                  S' = S \<and>
                  slice (start_pos S') (end_pos S' + 1) (content st') =
                  slice (start_pos S) (end_pos S + 1) (content st))"
    if h: "0 \<le> start_pos R" "start_pos R \<le> end_pos R" "end_pos R < int (length (content st))"
      "slice (start_pos R) (end_pos R + 1) (content st) = raw_content R"
  proof -
    have h2: "start_pos R \<le> end_pos R + 1"
      using h(2) by simp
    have lr: "int (length (raw_content R)) = end_pos R + 1 - start_pos R"
      using slice_length[OF h(1) h2 h(3)] h(4) by simp
    have d: "delta = int (length new_raw) - (end_pos R + 1 - start_pos R)"
      unfolding delta_def lr ..
    have l: "int (length (content st')) = int (length (content st)) + delta"
      unfolding buf d using h(1) h2 h(3) by (rule length_inserted)
    have le: "start_pos R \<le> int (length (content st))"
      using h(2,3) by simp
    have own: "slice (start_pos R') (end_pos R' + 1) (content st') = new_raw"
      unfolding buf r using slice_new_block[OF h(1) le, of new_raw] by simp
    have after: "start_pos S' = start_pos S + delta \<and> end_pos S' = end_pos S + delta \<and>
        slice (start_pos S') (end_pos S' + 1) (content st') =
        slice (start_pos S) (end_pos S + 1) (content st)"
      if a: "end_pos R < start_pos S" "start_pos S \<le> end_pos S + 1" "end_pos S < int (length (content st))"
    proof -
      have gt: "start_pos S > start_pos R"
        using a(1) h(2) by simp
      then have e: "start_pos S' = start_pos S + delta" "end_pos S' = end_pos S + delta"
        using frame by simp_all
      with slice_inserted_same[OF h(1) h2 h(3) a d] show ?thesis
        unfolding buf by simp
    qed
    have before: "S' = S \<and>
        slice (start_pos S') (end_pos S' + 1) (content st') =
        slice (start_pos S) (end_pos S + 1) (content st)"
      if b: "0 \<le> start_pos S" "start_pos S \<le> end_pos S + 1" "end_pos S < start_pos R"
    proof -
      have "\<not> start_pos S > start_pos R"
        using b by simp
      then have e: "S' = S"
        using frame by simp
      with slice_before_same[OF b le] show ?thesis
        unfolding buf by simp
    qed
    from l own after before show ?thesis
      by blast
  qed
  from buf r len frame same sync show ?thesis
    unfolding Let_def R_def[symmetric] S_def[symmetric] new_raw_def[symmetric] delta_def[symmetric]
      st'_def[symmetric] R'_def[symmetric] S'_def[symmetric]
    by blast
qed

theorem update_component_frame_witness:
  "(0::nat) < length (components two_parser) \<and> (1::nat) < length (components two_parser) \<and>
   (1::nat) \<noteq> 0 \<and> template_literal ''C1'' \<and> template_literal ''u'' \<and>
   0 \<le> start_pos (components two_parser ! 0) \<and>
   start_pos (components two_parser ! 0) \<le> end_pos (components two_parser ! 0) \<and>
   end_pos (components two_parser ! 0) < int (length (content two_parser)) \<and>
   slice (start_pos (components two_parser ! 0)) (end_pos (components two_parser ! 0) + 1)
     (content two_parser) = raw_content (components two_parser ! 0) \<and>
   end_pos (components two_parser ! 0) < start_pos (components two_parser ! 1) \<and>
   start_pos (components two_parser ! 1) \<le> end_pos (components two_parser ! 1) + 1 \<and>
   end_pos (components two_parser ! 1) < int (length (content two_parser)) \<and>
   start_pos (components two_parser ! 1) = 70 \<and> end_pos (components two_parser ! 1) = 139 \<and>
   int (length (update_property (update_property (raw_content (components two_parser ! 0))
      ''LCSC'' ''C1'') ''URL'' ''u'')) - int (length (raw_content (components two_parser ! 0))) = 148 \<and>
   start_pos (components (update_component two_parser 0 ''C1'' ''u'') ! 1) = 218 \<and>
   end_pos (components (update_component two_parser 0 ''C1'' ''u'') ! 1) = 287 \<and>
   int (length (content (update_component two_parser 0 ''C1'' ''u''))) = 288 \<and>
   slice 218 288 (content (update_component two_parser 0 ''C1'' ''u'')) = ref_block ''R2'' \<and>
   components (update_component two_parser 1 ''C1'' ''u'') ! 0 = components two_parser ! 0"
proof -
  have h0: "(0::nat) < length (components two_parser)"
    by code_simp
  have h1: "(1::nat) < length (components two_parser)"
    by code_simp
  have h2: "(1::nat) \<noteq> 0" and h2': "(0::nat) \<noteq> 1"
    by simp_all
  have h3: "template_literal ''C1''" and h4: "template_literal ''u''"
    by code_simp+
  have s1: "0 \<le> start_pos (components two_parser ! 0)"
    by code_simp
  have s2: "start_pos (components two_parser ! 0) \<le> end_pos (components two_parser ! 0)"
    by code_simp
  have s3: "end_pos (components two_parser ! 0) < int (length (content two_parser))"
    by code_simp
  have s4: "slice (start_pos (components two_parser ! 0)) (end_pos (components two_parser ! 0) + 1)
     (content two_parser) = raw_content (components two_parser ! 0)"
    by code_simp
  have a1: "end_pos (components two_parser ! 0) < start_pos (components two_parser ! 1)"
    by code_simp
  have a2: "start_pos (components two_parser ! 1) \<le> end_pos (components two_parser ! 1) + 1"
    by code_simp
  have a3: "end_pos (components two_parser ! 1) < int (length (content two_parser))"
    by code_simp
  have n: "start_pos (components two_parser ! 1) = 70" "end_pos (components two_parser ! 1) = 139"
    "start_pos (components two_parser ! 0) = 0"
    by code_simp+
  have d: "int (length (update_property (update_property (raw_content (components two_parser ! 0))
      ''LCSC'' ''C1'') ''URL'' ''u'')) - int (length (raw_content (components two_parser ! 0))) = 148"
    by code_simp
  have l: "int (length (content two_parser)) = 140"
    by code_simp
  have t: "slice 70 (139 + 1) (content two_parser) = ref_block ''R2''"
    by code_simp
  note T = update_component_frame[OF h0 h1 h2 h3 h4, unfolded Let_def]
  from T s1 s2 s3 s4 a1 a2 a3
  have r: "int (length (content (update_component two_parser 0 ''C1'' ''u''))) =
      int (length (content two_parser)) +
      (int (length (update_property (update_property (raw_content (components two_parser ! 0))
      ''LCSC'' ''C1'') ''URL'' ''u'')) - int (length (raw_content (components two_parser ! 0))))"
    "start_pos (components (update_component two_parser 0 ''C1'' ''u'') ! 1) =
      start_pos (components two_parser ! 1) +
      (int (length (update_property (update_property (raw_content (components two_parser ! 0))
      ''LCSC'' ''C1'') ''URL'' ''u'')) - int (length (raw_content (components two_parser ! 0))))"
    "end_pos (components (update_component two_parser 0 ''C1'' ''u'') ! 1) =
      end_pos (components two_parser ! 1) +
      (int (length (update_property (update_property (raw_content (components two_parser ! 0))
      ''LCSC'' ''C1'') ''URL'' ''u'')) - int (length (raw_content (components two_parser ! 0))))"
    "slice (start_pos (components (update_component two_parser 0 ''C1'' ''u'') ! 1))
       (end_pos (components (update_component two_parser 0 ''C1'' ''u'') ! 1) + 1)
       (content (update_component two_parser 0 ''C1'' ''u'')) =
     slice (start_pos (components two_parser ! 1)) (end_pos (components two_parser ! 1) + 1)
       (content two_parser)"
    by blast+
  have r1: "int (length (content (update_component two_parser 0 ''C1'' ''u''))) = 288"
    "start_pos (components (update_component two_parser 0 ''C1'' ''u'') ! 1) = 218"
    "end_pos (components (update_component two_parser 0 ''C1'' ''u'') ! 1) = 287"
    using r(1-3) unfolding d n l by simp_all
  have r2: "slice 218 288 (content (update_component two_parser 0 ''C1'' ''u'')) = ref_block ''R2''"
    using r(4) unfolding r1 n t by simp
  note U = update_component_frame[OF h1 h0 h2' h3 h4, unfolded Let_def]
  have "\<not> start_pos (components two_parser ! 0) > start_pos (components two_parser ! 1)"
    unfolding n by simp
  with U have r3: "components (update_component two_parser 1 ''C1'' ''u'') ! 0 = components two_parser ! 0"
    by presburger
  from h0 h1 h2 h3 h4 s1 s2 s3 s4 a1 a2 a3 n(1,2) d r1 r2 r3 show ?thesis
    by blast
qed

section \<open>Synthesizing a new attribute node (C1, C10)\<close>

lemma update_property_absent:
  assumes "rsearch (named_pattern name) raw = None"
  shows "update_property raw name v =
    slice_to (fst (insertion_point raw)) raw @
    new_prop (snd (insertion_point raw)) name v (at_coords_of raw) @
    slice_from (fst (insertion_point raw)) raw"
  using assms by (simp add: update_property_def Let_def split: prod.splits)

text \<open>
  Claim C1, as the code has it.  The claim says that an upsert of an absent attribute
  into a block with neither a pin nor an instances sub-node fails and changes nothing.
  The source has no such failure: its \<open>else\<close> branch, commented as the fallback, inserts
  before the last closing parenthesis with an indentation of two tabs.  So the upsert
  returns the block with the new node spliced in at \<open>raw.rfind(')')\<close>, the block grows
  by the length of the node, and for a block that ends with its closing parenthesis
  (every record block does) the node stands immediately before that parenthesis.
  The name is one without regular-expression metacharacters, as the source pastes it
  into its pattern.
\<close>

theorem update_property_fallback:
  assumes "rsearch (named_pattern name) raw = None"
    and "rsearch pin_pattern raw = None"
    and "rsearch instances_pattern raw = None"
    and "regex_literal name"
  shows "update_property raw name v =
           slice_to (rfind raw (CHR '')'')) raw @
           new_prop [tab, tab] name v (at_coords_of raw) @
           slice_from (rfind raw (CHR '')'')) raw
         \<and> length (update_property raw name v) =
           length raw + length (new_prop [tab, tab] name v (at_coords_of raw))
         \<and> update_property raw name v \<noteq> raw
         \<and> (\<forall>body. raw = body @ '')'' \<longrightarrow>
              update_property raw name v =
                body @ new_prop [tab, tab] name v (at_coords_of raw) @ '')'')"
proof -
  let ?node = "new_prop [tab, tab] name v (at_coords_of raw)"
  let ?p = "rfind raw (CHR '')'')"
  have ip: "insertion_point raw = (?p, [tab, tab])"
    using assms(2,3) by (simp add: insertion_point_def)
  have eq: "update_property raw name v = slice_to ?p raw @ ?node @ slice_from ?p raw"
    using update_property_absent[OF assms(1), of v] by (simp add: ip)
  have len: "length (update_property raw name v) = length raw + length ?node"
    using length_slices[of ?p raw] by (simp add: eq)
  have "0 < length ?node"
    by (simp add: new_prop_def)
  with len have ne: "update_property raw name v \<noteq> raw"
    by auto
  have "update_property raw name v = body @ ?node @ '')''" if "raw = body @ '')''" for body
  proof -
    have p: "?p = int (length body)"
      using that rfind_last[of body "CHR '')''"] by simp
    have "slice_to ?p raw = body" and "slice_from ?p raw = '')''"
      unfolding p using that by (simp_all add: slice_to_def slice_from_def clip_index_def)
    then show ?thesis
      using eq by simp
  qed
  with eq len ne show ?thesis
    by blast
qed

theorem update_property_fallback_witness:
  "rsearch (named_pattern ''LCSC'') bare_block = None \<and>
   rsearch pin_pattern bare_block = None \<and>
   rsearch instances_pattern bare_block = None \<and>
   regex_literal ''LCSC'' \<and>
   bare_block = bare_body @ '')'' \<and>
   update_property bare_block ''LCSC'' ''C1'' =
     bare_body @ new_prop [tab, tab] ''LCSC'' ''C1'' (at_coords_of bare_block) @ '')'' \<and>
   update_property bare_block ''LCSC'' ''C1'' \<noteq> bare_block"
proof -
  have h1: "rsearch (named_pattern ''LCSC'') bare_block = None"
    by code_simp
  have h2: "rsearch pin_pattern bare_block = None"
    by code_simp
  have h3: "rsearch instances_pattern bare_block = None"
    by code_simp
  have h4: "bare_block = bare_body @ '')''"
    by (simp add: bare_block_def)
  have h5: "regex_literal ''LCSC''"
    by code_simp
  from update_property_fallback[OF h1 h2 h3 h5, of "''C1''"] h1 h2 h3 h4 h5 show ?thesis
    by blast
qed

text \<open>
  The claim C1 as stated fails on \<open>bare_block\<close>: the block has no pin, no instances and
  no \<open>LCSC\<close> or \<open>URL\<close> attribute, it is a tracked record of its buffer, and
  \<open>update_component\<close> changes the buffer and the record: both new nodes stand at the
  block end, before the closing parenthesis.
\<close>

theorem insertion_point_not_found_counterexample:
  "rsearch (named_pattern ''LCSC'') bare_block = None \<and>
   rsearch (named_pattern ''URL'') bare_block = None \<and>
   rsearch pin_pattern bare_block = None \<and>
   rsearch instances_pattern bare_block = None \<and>
   length (components bare_parser) = 1 \<and>
   raw_content (components bare_parser ! 0) = bare_block \<and>
   content (update_component bare_parser 0 ''C1'' ''u'') =
     bare_body @ new_prop [tab, tab] ''LCSC'' ''C1'' ''1 2 0'' @
       new_prop [tab, tab] ''URL'' ''u'' ''1 2 0'' @ '')'' \<and>
   content (update_component bare_parser 0 ''C1'' ''u'') \<noteq> content bare_parser \<and>
   components (update_component bare_parser 0 ''C1'' ''u'') \<noteq> components bare_parser"
  by code_simp

text \<open>
  Claim C10.  When the attribute is absent and the block has no \<open>Reference\<close> attribute
  with a position hint (the search for it finds nothing), the upsert still creates the
  node: the result is the block with the node spliced in at the insertion point, and
  the node carries the position hint \<open>(at 0 0 0)\<close> verbatim.  The name is one without
  regular-expression metacharacters.
\<close>

theorem update_property_default_coords:
  assumes "rsearch (named_pattern name) raw = None"
    and "rsearch ref_at_pattern raw = None"
    and "regex_literal name"
  shows "\<exists>pre post indent. raw = pre @ post \<and>
           update_property raw name v = pre @ new_prop indent name v ''0 0 0'' @ post \<and>
           new_prop indent name v ''0 0 0'' =
             [newline] @ indent @ ''(property '' @ [dquote] @ name @ [dquote] @ '' '' @
             [dquote] @ v @ [dquote] @ '' (at 0 0 0)'' @
             [newline] @ indent @ [tab] @ ''(effects (font (size 1.27 1.27)) hide)'' @
             [newline] @ indent @ '')''"
proof -
  have c: "at_coords_of raw = ''0 0 0''"
    using assms(2) by (simp add: at_coords_of_def)
  let ?p = "fst (insertion_point raw)" and ?i = "snd (insertion_point raw)"
  have "raw = slice_to ?p raw @ slice_from ?p raw"
    by simp
  moreover have "update_property raw name v =
      slice_to ?p raw @ new_prop ?i name v ''0 0 0'' @ slice_from ?p raw"
    using update_property_absent[OF assms(1), of v] by (simp add: c)
  moreover have "new_prop ?i name v ''0 0 0'' =
             [newline] @ ?i @ ''(property '' @ [dquote] @ name @ [dquote] @ '' '' @
             [dquote] @ v @ [dquote] @ '' (at 0 0 0)'' @
             [newline] @ ?i @ [tab] @ ''(effects (font (size 1.27 1.27)) hide)'' @
             [newline] @ ?i @ '')''"
    by (simp add: new_prop_def)
  ultimately show ?thesis
    by blast
qed

theorem update_property_default_coords_witness:
  "rsearch (named_pattern ''LCSC'') pin_block = None \<and>
   rsearch ref_at_pattern pin_block = None \<and> regex_literal ''LCSC'' \<and>
   (\<exists>pre post indent. pin_block = pre @ post \<and>
      update_property pin_block ''LCSC'' ''C1'' = pre @ new_prop indent ''LCSC'' ''C1'' ''0 0 0'' @ post \<and>
      new_prop indent ''LCSC'' ''C1'' ''0 0 0'' =
        [newline] @ indent @ ''(property '' @ [dquote] @ ''LCSC'' @ [dquote] @ '' '' @
        [dquote] @ ''C1'' @ [dquote] @ '' (at 0 0 0)'' @
        [newline] @ indent @ [tab] @ ''(effects (font (size 1.27 1.27)) hide)'' @
        [newline] @ indent @ '')'')"
proof -
  have h1: "rsearch (named_pattern ''LCSC'') pin_block = None"
    by code_simp
  have h2: "rsearch ref_at_pattern pin_block = None"
    by code_simp
  have h3: "regex_literal ''LCSC''"
    by code_simp
  from update_property_default_coords[OF h1 h2 h3, of "''C1''"] h1 h2 h3 show ?thesis
    by blast
qed

section \<open>Manual identifiers (C9)\<close>

text \<open>
  Claim C9 asks that a typed identifier is accepted only in the shape \<open>C\<close> followed by
  digits.  The dialog checks that; the command-line prompt only checks the first
  letter.  The text \<open>cabc\<close> is accepted by the prompt, which returns \<open>CABC\<close> with its
  address, although \<open>CABC\<close> has not the shape; the dialog rejects it.
\<close>

theorem prompt_manual_accepts_non_digits:
  "prompt_manual ''cabc'' = Some (''CABC'', ''https://www.lcsc.com/product-detail/CABC.html'') \<and>
   \<not> c_digits ''CABC'' \<and> on_manual_entry ''cabc'' = None"
  by code_simp

section \<open>What the delimiter scanner returns (C5)\<close>

text \<open>
  The result of a scan is described without the loop, by counting, for any choice
  \<open>tg\<close> of the quote characters that toggle the quoted-text flag.  Position \<open>i\<close> is
  quoted when an odd number of toggling quotes lies between \<open>start\<close> and \<open>i\<close>; a
  parenthesis is counted when it is not quoted; the depth at \<open>i\<close> is the number of
  counted opening minus the number of counted closing parentheses before \<open>i\<close>; and \<open>j\<close>
  closes the block when it holds a counted closing parenthesis that brings the depth to
  zero.
\<close>

definition quoted :: "(nat \<Rightarrow> bool) \<Rightarrow> nat \<Rightarrow> nat \<Rightarrow> bool" where
  "quoted tg start i \<longleftrightarrow> odd (length (filter tg [start..<i]))"

definition counted :: "(nat \<Rightarrow> bool) \<Rightarrow> string \<Rightarrow> nat \<Rightarrow> char \<Rightarrow> nat \<Rightarrow> bool" where
  "counted tg buf start c i \<longleftrightarrow> buf ! i = c \<and> \<not> tg i \<and> \<not> quoted tg start i"

definition depth_at :: "(nat \<Rightarrow> bool) \<Rightarrow> string \<Rightarrow> nat \<Rightarrow> nat \<Rightarrow> int" where
  "depth_at tg buf start i =
     int (length (filter (counted tg buf start (CHR ''('')) [start..<i])) -
     int (length (filter (counted tg buf start (CHR '')'')) [start..<i]))"

definition closes :: "(nat \<Rightarrow> bool) \<Rightarrow> string \<Rightarrow> nat \<Rightarrow> nat \<Rightarrow> bool" where
  "closes tg buf start j \<longleftrightarrow>
     start \<le> j \<and> j < length buf \<and> counted tg buf start (CHR '')'') j \<and>
     depth_at tg buf start (Suc j) = 0"

definition scan_result :: "(nat \<Rightarrow> bool) \<Rightarrow> string \<Rightarrow> nat \<Rightarrow> int \<Rightarrow> bool" where
  "scan_result tg buf start r \<longleftrightarrow>
     (r = -1 \<and> (\<forall>k. \<not> closes tg buf start k)) \<or>
     (\<exists>e. r = int e \<and> closes tg buf start e \<and> (\<forall>k<e. \<not> closes tg buf start k))"

text \<open>
  The escape rule of quoted text: a backslash escapes the character after it, so a
  double quote is escaped when an odd number of backslashes stands immediately before
  it, and is unescaped otherwise.  An unescaped double quote toggles the flag.
\<close>

definition backslashes_before :: "string \<Rightarrow> nat \<Rightarrow> nat" where
  "backslashes_before buf i = length (takeWhile (\<lambda>c. c = backslash) (rev (take i buf)))"

definition unescaped :: "string \<Rightarrow> nat \<Rightarrow> bool" where
  "unescaped buf i \<longleftrightarrow> buf ! i = dquote \<and> even (backslashes_before buf i)"

text \<open>The test of the source: the character before the quote is not a backslash.\<close>

definition toggles :: "string \<Rightarrow> nat \<Rightarrow> bool" where
  "toggles buf i \<longleftrightarrow> buf ! i = dquote \<and> (i = 0 \<or> buf ! (i - 1) \<noteq> backslash)"

lemma quoted_Suc:
  "start \<le> i \<Longrightarrow> quoted tg start (Suc i) = (if tg i then \<not> quoted tg start i else quoted tg start i)"
  by (simp add: quoted_def)

lemma quoted_start [simp]: "\<not> quoted tg start start"
  by (simp add: quoted_def)

lemma depth_at_start [simp]: "depth_at tg buf start start = 0"
  by (simp add: depth_at_def)

lemma depth_at_Suc:
  "start \<le> i \<Longrightarrow> depth_at tg buf start (Suc i) =
     depth_at tg buf start i + (if counted tg buf start (CHR ''('') i then 1 else 0)
       - (if counted tg buf start (CHR '')'') i then 1 else 0)"
  by (simp add: depth_at_def)

lemma paren_loop_invariant:
  "start \<le> i \<Longrightarrow> d = depth_at (toggles buf) buf start i \<Longrightarrow> b = quoted (toggles buf) start i \<Longrightarrow>
   \<forall>k<i. \<not> closes (toggles buf) buf start k \<Longrightarrow> scan_result (toggles buf) buf start (paren_loop buf d b i)"
proof (induction buf d b i rule: paren_loop.induct)
  case (1 buf depth in_string i)
  note eq = paren_loop.simps[of buf depth in_string i]
  show ?case
  proof (cases "i < length buf")
    case False
    have "\<not> closes (toggles buf) buf start k" for k
      using False 1(9) by (cases "k < i") (auto simp: closes_def)
    then show ?thesis
      using False by (simp add: eq scan_result_def)
  next
    case True
    note IH = 1(1-5)[OF True refl]
    have le: "start \<le> i + 1"
      using 1(6) by simp
    have ext: "\<forall>k<i + 1. \<not> closes (toggles buf) buf start k" if "\<not> closes (toggles buf) buf start i"
      using that 1(9) less_Suc_eq by auto
    show ?thesis
    proof (cases "toggles buf i")
      case t: True
      have q: "(\<not> in_string) = quoted (toggles buf) start (i + 1)"
        using t 1(6,8) by (simp add: quoted_Suc)
      have d: "depth = depth_at (toggles buf) buf start (i + 1)"
        using t 1(6,7) by (simp add: depth_at_Suc counted_def)
      have nc: "\<not> closes (toggles buf) buf start i"
        using t by (simp add: closes_def counted_def)
      have c: "buf ! i = dquote \<and> (i = 0 \<or> buf ! (i - 1) \<noteq> backslash)"
        using t by (simp add: toggles_def)
      from IH(1)[OF c le d q ext[OF nc]] show ?thesis
        using True c by (subst eq) (auto simp: Let_def)
    next
      case t: False
      then have c: "\<not> (buf ! i = dquote \<and> (i = 0 \<or> buf ! (i - 1) \<noteq> backslash))"
        by (simp add: toggles_def)
      have q: "in_string = quoted (toggles buf) start (i + 1)"
        using t 1(6,8) by (simp add: quoted_Suc)
      show ?thesis
      proof (cases in_string)
        case s: True
        have d: "depth = depth_at (toggles buf) buf start (i + 1)"
          using s 1(6,7,8) by (simp add: depth_at_Suc counted_def)
        have nc: "\<not> closes (toggles buf) buf start i"
          using s 1(8) by (simp add: closes_def counted_def)
        have ns: "\<not> \<not> in_string"
          using s by simp
        from IH(5)[OF c ns le d q ext[OF nc]] show ?thesis
          using True c s by (subst eq) (auto simp: Let_def)
      next
        case s: False
        have nq: "\<not> quoted (toggles buf) start i"
          using s 1(8) by simp
        consider (op) "buf ! i = CHR ''(''" | (cl) "buf ! i = CHR '')''" | (other) "buf ! i \<noteq> CHR ''(''" "buf ! i \<noteq> CHR '')''"
          by blast
        then show ?thesis
        proof cases
          case op
          have d: "depth + 1 = depth_at (toggles buf) buf start (i + 1)"
            using op t nq 1(6,7) by (simp add: depth_at_Suc counted_def)
          have nc: "\<not> closes (toggles buf) buf start i"
            using op by (simp add: closes_def counted_def)
          from IH(2)[OF c s op le d q ext[OF nc]] show ?thesis
            using True c s op by (subst eq) (auto simp: Let_def)
        next
          case cl
          have no: "buf ! i \<noteq> CHR ''(''"
            using cl by simp
          have d: "depth - 1 = depth_at (toggles buf) buf start (i + 1)"
            using cl t nq 1(6,7) by (simp add: depth_at_Suc counted_def)
          show ?thesis
          proof (cases "depth - 1 = 0")
            case z: True
            have "closes (toggles buf) buf start i"
              using z d cl t nq True 1(6) by (simp add: closes_def counted_def)
            then show ?thesis
              using True c s cl z 1(9) by (subst eq) (auto simp: scan_result_def Let_def)
          next
            case z: False
            have nc: "\<not> closes (toggles buf) buf start i"
              using z d by (simp add: closes_def)
            from IH(3)[OF c s no cl z le d q ext[OF nc]] show ?thesis
              using True c s cl z by (subst eq) (auto simp: Let_def)
          qed
        next
          case other
          have d: "depth = depth_at (toggles buf) buf start (i + 1)"
            using other 1(6,7) by (simp add: depth_at_Suc counted_def)
          have nc: "\<not> closes (toggles buf) buf start i"
            using other by (simp add: closes_def counted_def)
          from IH(4)[OF c s other le d q ext[OF nc]] show ?thesis
            using True c s other by (subst eq) (auto simp: Let_def)
        qed
      qed
    qed
  qed
qed

lemma depth_at_open:
  assumes "buf ! start = CHR ''(''"
  shows "depth_at (toggles buf) buf start (Suc start) = 1"
  using assms depth_at_Suc[of start start "toggles buf" buf]
  by (simp add: counted_def toggles_def dquote_def)

lemma depth_positive:
  assumes "start < length buf" and "buf ! start = CHR ''(''"
  shows "start \<le> k \<Longrightarrow> k < length buf \<Longrightarrow> \<forall>j\<le>k. \<not> closes (toggles buf) buf start j \<Longrightarrow> 1 \<le> depth_at (toggles buf) buf start (Suc k)"
proof (induction k)
  case 0
  then have "start = 0" by simp
  then show ?case
    using depth_at_open[OF assms(2)] by simp
next
  case (Suc k)
  show ?case
  proof (cases "start = Suc k")
    case True
    then show ?thesis
      using depth_at_open[OF assms(2)] by simp
  next
    case False
    with Suc.prems have le: "start \<le> k" "k < length buf" "\<forall>j\<le>k. \<not> closes (toggles buf) buf start j"
      by auto
    from Suc.IH[OF le] have ih: "1 \<le> depth_at (toggles buf) buf start (Suc k)" .
    have nc: "\<not> closes (toggles buf) buf start (Suc k)"
      using Suc.prems by blast
    have s: "start \<le> Suc k"
      using le by simp
    show ?thesis
      using ih nc Suc.prems(2) s
      by (auto simp: depth_at_Suc[OF s] closes_def)
  qed
qed


lemma find_matching_paren_by_test:
  assumes "start < length buf" and "buf ! start = CHR ''(''"
  shows "(\<exists>e. find_matching_paren buf start = int e \<and> closes (toggles buf) buf start e \<and>
             (\<forall>k<e. \<not> closes (toggles buf) buf start k) \<and>
             (\<forall>k. start \<le> k \<and> k < e \<longrightarrow> 1 \<le> depth_at (toggles buf) buf start (Suc k)))
         \<or> (find_matching_paren buf start = -1 \<and> (\<forall>k. \<not> closes (toggles buf) buf start k) \<and>
             (\<forall>k. start \<le> k \<and> k < length buf \<longrightarrow> 1 \<le> depth_at (toggles buf) buf start (Suc k)))"
proof -
  have "scan_result (toggles buf) buf start (find_matching_paren buf start)"
    unfolding find_matching_paren_def
    by (rule paren_loop_invariant) (simp_all add: closes_def)
  then consider (none) "find_matching_paren buf start = -1" "\<forall>k. \<not> closes (toggles buf) buf start k"
    | (some) e where "find_matching_paren buf start = int e" "closes (toggles buf) buf start e"
        "\<forall>k<e. \<not> closes (toggles buf) buf start k"
    unfolding scan_result_def by blast
  then show ?thesis
  proof cases
    case none
    then show ?thesis
      using depth_positive[OF assms] by simp
  next
    case some
    have "1 \<le> depth_at (toggles buf) buf start (Suc k)" if "start \<le> k" "k < e" for k
    proof -
      have "k < length buf"
        using that some(2) by (simp add: closes_def)
      moreover have "\<forall>j\<le>k. \<not> closes (toggles buf) buf start j"
        using that some(3) by simp
      ultimately show ?thesis
        using depth_positive[OF assms that(1)] by blast
    qed
    with some show ?thesis
      by blast
  qed
qed

text \<open>
  The test of the source and the escape rule agree on a quote exactly when the run of
  backslashes before it is empty or of odd length.
\<close>

lemma backslashes_before_0: "backslashes_before buf 0 = 0"
  by (simp add: backslashes_before_def)

lemma backslashes_before_Suc:
  assumes "i < length buf"
  shows "backslashes_before buf (Suc i) =
     (if buf ! i = backslash then Suc (backslashes_before buf i) else 0)"
proof -
  have "rev (take (Suc i) buf) = buf ! i # rev (take i buf)"
    using assms by (simp add: take_Suc_conv_app_nth)
  then show ?thesis
    by (simp add: backslashes_before_def)
qed

lemma toggles_unescaped:
  assumes "i < length buf"
  shows "toggles buf i = unescaped buf i \<longleftrightarrow>
     (buf ! i = dquote \<longrightarrow> backslashes_before buf i = 0 \<or> odd (backslashes_before buf i))"
proof (cases i)
  case 0
  then show ?thesis
    by (simp add: toggles_def unescaped_def backslashes_before_0)
next
  case (Suc k)
  then have "k < length buf"
    using assms by simp
  from backslashes_before_Suc[OF this] show ?thesis
    unfolding Suc by (auto simp: toggles_def unescaped_def)
qed

lemma quoted_cong:
  assumes "\<forall>i. start \<le> i \<and> i < n \<longrightarrow> tg i = tg' i" and "k \<le> n"
  shows "quoted tg start k = quoted tg' start k"
proof -
  have "filter tg [start..<k] = filter tg' [start..<k]"
    using assms by (intro filter_cong) auto
  then show ?thesis
    by (simp add: quoted_def)
qed

lemma counted_cong:
  assumes "\<forall>i. start \<le> i \<and> i < n \<longrightarrow> tg i = tg' i" and "start \<le> k" and "k < n"
  shows "counted tg buf start c k = counted tg' buf start c k"
proof -
  have "quoted tg start k = quoted tg' start k"
    using assms(1) by (rule quoted_cong) (use assms(3) in simp)
  moreover have "tg k = tg' k"
    using assms by blast
  ultimately show ?thesis
    by (simp add: counted_def)
qed

lemma depth_at_cong:
  assumes "\<forall>i. start \<le> i \<and> i < n \<longrightarrow> tg i = tg' i" and "k \<le> n"
  shows "depth_at tg buf start k = depth_at tg' buf start k"
proof -
  have "filter (counted tg buf start c) [start..<k] = filter (counted tg' buf start c) [start..<k]" for c
  proof (rule filter_cong[OF refl])
    fix x
    assume "x \<in> set [start..<k]"
    then have "start \<le> x" "x < n"
      using assms(2) by simp_all
    with assms(1) show "counted tg buf start c x = counted tg' buf start c x"
      by (rule counted_cong)
  qed
  then show ?thesis
    by (simp add: depth_at_def)
qed

lemma closes_cong:
  assumes "\<forall>i. start \<le> i \<and> i < length buf \<longrightarrow> tg i = tg' i"
  shows "closes tg buf start j = closes tg' buf start j"
proof (cases "start \<le> j \<and> j < length buf")
  case True
  have "counted tg buf start (CHR '')'') j = counted tg' buf start (CHR '')'') j"
    using assms by (rule counted_cong) (use True in simp_all)
  moreover have "depth_at tg buf start (Suc j) = depth_at tg' buf start (Suc j)"
    using assms by (rule depth_at_cong) (use True in simp)
  ultimately show ?thesis
    by (simp add: closes_def)
next
  case False
  then show ?thesis
    by (auto simp: closes_def)
qed

text \<open>
  So the scanner is right about escapes on a buffer in which no double quote follows an
  even, non-empty run of backslashes: there it returns the first offset that closes
  the block under the escape rule, or \<open>-1\<close> when there is none.
\<close>

lemma find_matching_paren_unescaped:
  assumes "start < length buf" and "buf ! start = CHR ''(''"
    and "\<forall>i. start \<le> i \<and> i < length buf \<and> buf ! i = dquote \<longrightarrow>
           backslashes_before buf i = 0 \<or> odd (backslashes_before buf i)"
  shows "(\<exists>e. find_matching_paren buf start = int e \<and> closes (unescaped buf) buf start e \<and>
             (\<forall>k<e. \<not> closes (unescaped buf) buf start k))
         \<or> (find_matching_paren buf start = -1 \<and> (\<forall>k. \<not> closes (unescaped buf) buf start k))"
proof -
  have "toggles buf i = unescaped buf i" if "start \<le> i" "i < length buf" for i
    using toggles_unescaped[OF that(2)] assms(3) that by blast
  then have "\<forall>i. start \<le> i \<and> i < length buf \<longrightarrow> toggles buf i = unescaped buf i"
    by blast
  then have "closes (toggles buf) buf start j = closes (unescaped buf) buf start j" for j
    by (rule closes_cong)
  with find_matching_paren_by_test[OF assms(1,2)] show ?thesis
    by auto
qed

text \<open>
  Two buffers with an escaped backslash at the end of a quoted text.  In \<open>esc_text\<close> the
  text \<open>b\\\<close> is followed by a quoted closing parenthesis; \<open>path_block\<close> is the block of
  a record with the attribute value \<open>C:\\\<close>.
\<close>

definition esc_text :: string where
  "esc_text = ''(a '' @ [dquote] @ ''b'' @ [backslash, backslash] @ [dquote] @ '' '' @
     [dquote] @ '')'' @ [dquote] @ '' c)''"

definition path_block :: string where
  "path_block = ''(symbol (lib_id '' @ [dquote] @ ''Device:R'' @ [dquote] @ '') (property '' @
     [dquote] @ ''Reference'' @ [dquote] @ '' '' @ [dquote] @ ''R1'' @ [dquote] @
     '' (at 1 2 0)) (property '' @ [dquote] @ ''Path'' @ [dquote] @ '' '' @ [dquote] @ ''C:'' @
     [backslash, backslash] @ [dquote] @ '' (at 0 0 0)))''"

text \<open>
  Claim C5.  The claim is that the scanner returns the closing parenthesis that brings
  the depth back to zero, counting parentheses only outside quoted text, where an
  unescaped double quote toggles the flag.  The scanner takes a quote for escaped
  whenever the character before it is a backslash, also when that backslash is itself
  escaped.  In \<open>esc_text\<close> it returns offset 10, a parenthesis inside quoted text, where
  the block closes at offset 14.  On \<open>path_block\<close>, which closes at its last offset 102
  and holds a record with reference \<open>R1\<close>, it returns \<open>-1\<close>, and extraction drops the
  record.
\<close>

theorem find_matching_paren_escaped_backslash:
  "find_matching_paren esc_text 0 = 10 \<and> quoted (unescaped esc_text) 0 10 \<and>
   filter (closes (unescaped esc_text) esc_text 0) [0..<length esc_text] = [14] \<and>
   find_matching_paren path_block 0 = - 1 \<and>
   filter (closes (unescaped path_block) path_block 0) [0..<length path_block] = [102] \<and>
   map_option reference (parse_symbol_block path_block 0 102) = Some ''R1'' \<and>
   parse path_block = []"
  by code_simp

section \<open>Batch insertion against one-at-a-time insertion (C4)\<close>

text \<open>The offsets were computed against the buffer: each lies between 0 and its length.\<close>

definition valid_offsets :: "string \<Rightarrow> (int \<times> string) list \<Rightarrow> bool" where
  "valid_offsets buf mods \<longleftrightarrow> list_all (\<lambda>m. 0 \<le> fst m \<and> fst m \<le> int (length buf)) mods"

lemma splice_nat:
  "0 \<le> p \<Longrightarrow> p \<le> int (length buf) \<Longrightarrow> splice buf (p, t) = take (nat p) buf @ t @ drop (nat p) buf"
  by (simp add: splice_def slice_to_def slice_from_def clip_index_def)

lemma length_splice: "length (splice buf m) = length buf + length (snd m)"
  using length_slices[of "fst m" buf] by (simp add: splice_def)

text \<open>Two insertions commute when the later offset is moved by the length of the earlier text.\<close>

lemma splice_commute:
  assumes "0 \<le> p" and "p < q" and "q \<le> int (length buf)"
  shows "splice (splice buf (p, t)) (q + int (length t), u) = splice (splice buf (q, u)) (p, t)"
proof -
  obtain a b where ab: "p = int a" "q = int b" 
    using assms by (metis nonneg_int_cases order_less_imp_le order_trans)
  have lt: "a < b" "b \<le> length buf" using assms ab by auto
  have 1: "splice buf (p, t) = take a buf @ t @ drop a buf"
    using lt ab by (simp add: splice_nat)
  have 2: "splice buf (q, u) = take b buf @ u @ drop b buf"
    using lt ab by (simp add: splice_nat)
  have 3: "splice (take a buf @ t @ drop a buf) (q + int (length t), u) =
     take (b + length t) (take a buf @ t @ drop a buf) @ u @ drop (b + length t) (take a buf @ t @ drop a buf)"
    using lt ab by (subst splice_nat) (simp_all add: nat_add_distrib)
  have 4: "splice (take b buf @ u @ drop b buf) (p, t) =
     take a (take b buf @ u @ drop b buf) @ t @ drop a (take b buf @ u @ drop b buf)"
    using lt ab by (subst splice_nat) simp_all
  have m: "min a b = a" "min (length buf) a = a" "min (length buf) b = b" using lt by auto
  show ?thesis
    unfolding 1 2 3 4 using lt
    by (simp add: m take_add drop_take min_def)
qed


lemma insort_key_split:
  "insort_key f x ys = takeWhile (\<lambda>y. \<not> f x \<le> f y) ys @ x # dropWhile (\<lambda>y. \<not> f x \<le> f y) ys"
  by (induction ys) auto

lemma insort_key_map:
  "\<forall>y\<in>set ys. (f (g x) \<le> f (g y)) = (f x \<le> f y) \<Longrightarrow>
   insort_key f (g x) (map g ys) = map g (insort_key f x ys)"
  by (induction ys) auto

lemma sort_key_map:
  "\<forall>x\<in>set xs. \<forall>y\<in>set xs. (f (g x) \<le> f (g y)) = (f x \<le> f y) \<Longrightarrow>
   sort_key f (map g xs) = map g (sort_key f xs)"
proof (induction xs)
  case Nil
  then show ?case by simp
next
  case (Cons x xs)
  then have "sort_key f (map g xs) = map g (sort_key f xs)"
    by simp
  moreover have "\<forall>y\<in>set (sort_key f xs). (f (g x) \<le> f (g y)) = (f x \<le> f y)"
    using Cons.prems by simp
  ultimately show ?case
    by (simp add: insort_key_map)
qed

lemma bump_order:
  "(fst (bump m y) \<le> fst (bump m x)) = (fst y \<le> fst x)"
  by (auto simp: bump_def)

lemma sort_reverse_bump: "sort_reverse (map (bump m) mods) = map (bump m) (sort_reverse mods)"
  unfolding sort_reverse_def by (rule sort_key_map) (simp add: bump_order)

lemma sort_reverse_Cons:
  "sort_reverse (m # mods) =
     takeWhile (\<lambda>y. fst m < fst y) (sort_reverse mods) @ m #
     dropWhile (\<lambda>y. fst m < fst y) (sort_reverse mods)"
  unfolding sort_reverse_def by (simp add: insort_key_split not_le)

lemma sorted_dropWhile_le:
  assumes "sorted (map (\<lambda>m. - fst m) ys)"
  shows "\<forall>y\<in>set (dropWhile (\<lambda>y. (p::int) < fst y) ys). fst y \<le> p"
  using assms
proof (induction ys)
  case Nil
  then show ?case by simp
next
  case (Cons y ys)
  then show ?case by (auto simp: not_less)
qed

lemma set_sort_reverse [simp]: "set (sort_reverse mods) = set mods"
  by (simp add: sort_reverse_def)

lemma foldl_splice_shift:
  assumes "0 \<le> p"
  shows "\<forall>h\<in>set hi. p < fst h \<and> fst h \<le> int (length buf) \<Longrightarrow>
     foldl splice (splice buf (p, t)) (map (bump (p, t)) hi) = splice (foldl splice buf hi) (p, t)"
proof (induction hi arbitrary: buf)
  case Nil
  then show ?case by simp
next
  case (Cons h hs)
  obtain q u where h: "h = (q, u)"
    by (cases h)
  from Cons.prems h have q: "p < q" "q \<le> int (length buf)"
    by auto
  have b: "bump (p, t) (q, u) = (q + int (length t), u)"
    using q by (simp add: bump_def)
  have "\<forall>x\<in>set hs. p < fst x \<and> fst x \<le> int (length (splice buf h))"
    using Cons.prems by (auto simp: length_splice)
  from Cons.IH[OF this] show ?case
    using splice_commute[OF assms q, of t u] by (simp add: b h)
qed

text \<open>
  Claim C4.  For insertions whose offsets were computed against the original buffer,
  splicing them in the order of \<open>sort(reverse=True)\<close> by offset gives the same buffer as
  applying them one at a time in the order given, each time adding the length of the
  inserted text to every greater offset still to come.
\<close>

theorem batch_equals_bookkeeping:
  assumes "valid_offsets buf mods"
  shows "apply_modifications buf mods = apply_with_bookkeeping buf mods"
  using assms
proof (induction "length mods" arbitrary: buf mods)
  case 0
  then show ?case
    by (simp add: apply_modifications_def sort_reverse_def)
next
  case (Suc n)
  then obtain m mods' where ms: "mods = m # mods'" and n: "n = length mods'"
    by (cases mods) auto
  obtain p t where m: "m = (p, t)"
    by (cases m)
  let ?S = "sort_reverse mods'"
  let ?hi = "takeWhile (\<lambda>y. p < fst y) ?S" and ?lo = "dropWhile (\<lambda>y. p < fst y) ?S"
  from Suc.prems ms m have p: "0 \<le> p" "p \<le> int (length buf)"
    and v: "\<forall>x\<in>set mods'. 0 \<le> fst x \<and> fst x \<le> int (length buf)"
    by (auto simp: valid_offsets_def list_all_iff)
  have "valid_offsets (splice buf m) (map (bump m) mods')"
    using v by (auto simp: valid_offsets_def list_all_iff bump_def length_splice)
  with Suc.hyps(1)[of "map (bump m) mods'" "splice buf m"] n
  have "apply_with_bookkeeping buf (m # mods') = foldl splice (splice buf m) (map (bump m) ?S)"
    by (simp add: apply_modifications_def sort_reverse_bump)
  also have "map (bump m) ?S = map (bump m) ?hi @ map (bump m) ?lo"
    by (metis map_append takeWhile_dropWhile_id)
  also have "map (bump m) ?lo = ?lo"
  proof -
    have "sorted (map (\<lambda>m. - fst m) ?S)"
      by (simp add: sort_reverse_def)
    from sorted_dropWhile_le[OF this, of p]
    have "\<And>y. y \<in> set ?lo \<Longrightarrow> bump m y = y"
      by (auto simp: bump_def m)
    then show ?thesis
      by (rule map_idI)
  qed
  also have "foldl splice (splice buf m) (map (bump m) ?hi @ ?lo) =
      foldl splice (foldl splice (splice buf m) (map (bump m) ?hi)) ?lo"
    by simp
  also have "foldl splice (splice buf m) (map (bump m) ?hi) = splice (foldl splice buf ?hi) m"
  proof -
    have "h \<in> set mods' \<and> p < fst h" if "h \<in> set ?hi" for h
      using set_takeWhileD[OF that] by simp
    with v have "\<forall>h\<in>set ?hi. p < fst h \<and> fst h \<le> int (length buf)"
      by blast
    from foldl_splice_shift[OF p(1) this] show ?thesis
      by (simp add: m)
  qed
  also have "foldl splice (splice (foldl splice buf ?hi) m) ?lo = foldl splice buf (?hi @ m # ?lo)"
    by simp
  also have "?hi @ m # ?lo = sort_reverse (m # mods')"
    by (simp add: sort_reverse_Cons m)
  finally show ?case
    by (simp add: apply_modifications_def ms)
qed

theorem batch_equals_bookkeeping_witness:
  "valid_offsets ''abcdef'' [(2, ''X''), (4, ''Y''), (2, ''Z'')] \<and>
   apply_modifications ''abcdef'' [(2, ''X''), (4, ''Y''), (2, ''Z'')] =
   apply_with_bookkeeping ''abcdef'' [(2, ''X''), (4, ''Y''), (2, ''Z'')] \<and>
   apply_with_bookkeeping ''abcdef'' [(2, ''X''), (4, ''Y''), (2, ''Z'')] = ''abZXcdYef''"
proof -
  have h: "valid_offsets ''abcdef'' [(2, ''X''), (4, ''Y''), (2, ''Z'')]"
    by code_simp
  have r: "apply_with_bookkeeping ''abcdef'' [(2, ''X''), (4, ''Y''), (2, ''Z'')] = ''abZXcdYef''"
    by code_simp
  from batch_equals_bookkeeping[OF h] h r show ?thesis
    by simp
qed

section \<open>What extraction leaves out (C6)\<close>

lemma parse_symbol_block_Some:
  assumes "parse_symbol_block raw s e = Some c"
  shows "raw_content c = raw \<and> start_pos c = s \<and> end_pos c = e \<and>
         reference c = dict_get (block_properties raw) ''Reference'' [] \<and>
         reference c \<noteq> [] \<and> \<not> startswith (reference c) ''#'' \<and>
         \<not> is_power (lib_id c) \<and>
         (\<exists>off gs rest. rsearch lib_id_pattern raw = Some (off, gs, rest) \<and> lib_id c = gs ! 3)"
  using assms
  by (auto simp: parse_symbol_block_def Let_def split: option.splits if_splits)

definition from_block :: "string \<Rightarrow> Component \<Rightarrow> bool" where
  "from_block buf c \<longleftrightarrow>
     parse_symbol_block (slice (start_pos c) (end_pos c + 1) buf) (start_pos c) (end_pos c) = Some c"

lemma parse_loop_from_block:
  "\<forall>c\<in>set comps. from_block buf c \<Longrightarrow> \<forall>c\<in>set (parse_loop buf pos comps). from_block buf c"
proof (induction buf pos comps rule: parse_loop.induct)
  case (1 buf pos comps)
  note eq = parse_loop.simps[of buf pos comps]
  show ?case
  proof (cases "rsearch symbol_pattern (drop pos buf)")
    case None
    then show ?thesis
      using 1(3) by (simp add: eq)
  next
    case (Some x)
    then obtain off gs rest where m: "rsearch symbol_pattern (drop pos buf) = Some (off, gs, rest)"
      by (cases x) auto
    let ?start = "pos + off"
    let ?end = "find_matching_paren buf ?start"
    show ?thesis
    proof (cases "?end = -1")
      case True
      from 1(1)[OF m refl refl refl refl True 1(3)] show ?thesis
        using m True by (subst eq) (simp add: Let_def)
    next
      case False
      let ?raw = "slice (int ?start) (?end + 1) buf"
      let ?component = "parse_symbol_block ?raw (int ?start) ?end"
      let ?comps = "case ?component of None \<Rightarrow> comps | Some c \<Rightarrow> comps @ [c]"
      have "\<forall>c\<in>set ?comps. from_block buf c"
      proof (cases ?component)
        case None
        then show ?thesis using 1(3) by simp
      next
        case (Some c)
        from parse_symbol_block_Some[OF Some] Some have "from_block buf c"
          by (simp add: from_block_def)
        then show ?thesis using 1(3) Some by simp
      qed
      from 1(2)[OF m refl refl refl refl False refl refl this] show ?thesis
        using m False by (subst eq) (simp add: Let_def)
    qed
  qed
qed

text \<open>
  Claim C6.  Every component that \<open>parse\<close> returns was built from the block
  \<open>content[start:end+1]\<close> it records, has a reference that is the \<open>Reference\<close> attribute
  of that block, not empty and not starting with \<open>#\<close>, and a \<open>lib_id\<close> that is not a
  power symbol.  A block whose \<open>Reference\<close> attribute is absent, empty or starts with \<open>#\<close>
  yields no component, and a block whose \<open>lib_id\<close> is a power symbol yields none either,
  whatever its reference is.
\<close>

theorem parse_excludes:
  "(\<forall>c\<in>set (parse buf).
      reference c \<noteq> [] \<and> \<not> startswith (reference c) ''#'' \<and> \<not> is_power (lib_id c) \<and>
      raw_content c = slice (start_pos c) (end_pos c + 1) buf \<and>
      reference c = dict_get (block_properties (raw_content c)) ''Reference'' [] \<and>
      (\<exists>off gs rest. rsearch lib_id_pattern (raw_content c) = Some (off, gs, rest) \<and>
         lib_id c = gs ! 3))
   \<and> (\<forall>raw s e. dict_get (block_properties raw) ''Reference'' [] = [] \<or>
         startswith (dict_get (block_properties raw) ''Reference'' []) ''#''
         \<longrightarrow> parse_symbol_block raw s e = None)
   \<and> (\<forall>raw s e off gs rest. rsearch lib_id_pattern raw = Some (off, gs, rest) \<and> is_power (gs ! 3)
         \<longrightarrow> parse_symbol_block raw s e = None)"
proof (intro conjI ballI allI impI)
  fix c
  assume "c \<in> set (parse buf)"
  moreover have "\<forall>c\<in>set (parse buf). from_block buf c"
    unfolding parse_def by (rule parse_loop_from_block) simp
  ultimately have "from_block buf c"
    by blast
  from parse_symbol_block_Some[OF this[unfolded from_block_def]]
  show "reference c \<noteq> []" "\<not> startswith (reference c) ''#''" "\<not> is_power (lib_id c)"
    "raw_content c = slice (start_pos c) (end_pos c + 1) buf"
    "reference c = dict_get (block_properties (raw_content c)) ''Reference'' []"
    "\<exists>off gs rest. rsearch lib_id_pattern (raw_content c) = Some (off, gs, rest) \<and> lib_id c = gs ! 3"
    by metis+
next
  fix raw s e
  assume "dict_get (block_properties raw) ''Reference'' [] = [] \<or>
         startswith (dict_get (block_properties raw) ''Reference'' []) ''#''"
  then show "parse_symbol_block raw s e = None"
    by (auto simp: parse_symbol_block_def Let_def split: option.splits)
next
  fix raw s e off gs rest
  assume "rsearch lib_id_pattern raw = Some (off, gs, rest) \<and> is_power (gs ! 3)"
  then show "parse_symbol_block raw s e = None"
    by (simp add: parse_symbol_block_def Let_def)
qed


text \<open>A buffer with a power symbol, a reserved reference, a block without reference and a resistor.\<close>

definition power_rest :: string where
  "power_rest = '' (property '' @ [dquote] @ ''Reference'' @ [dquote] @ '' '' @ [dquote] @ ''R9'' @
     [dquote] @ '' (at 0 0 0)))''"

definition power_block :: string where
  "power_block = ''(symbol (lib_id '' @ [dquote] @ ''power:GND'' @ [dquote] @ '')'' @ power_rest"

definition hash_block :: string where
  "hash_block = ''(symbol (lib_id '' @ [dquote] @ ''x'' @ [dquote] @ '') (property '' @ [dquote] @
     ''Reference'' @ [dquote] @ '' '' @ [dquote] @ ''#PWR01'' @ [dquote] @ '' (at 0 0 0)))''"

definition mixed_buf :: string where
  "mixed_buf = power_block @ hash_block @ ''(symbol (lib_id '' @ [dquote] @ ''y'' @ [dquote] @ ''))'' @
     ref_block ''R1''"

theorem parse_excludes_witness:
  "hd (parse mixed_buf) \<in> set (parse mixed_buf) \<and>
   reference (hd (parse mixed_buf)) = ''R1'' \<and>
   \<not> is_power (lib_id (hd (parse mixed_buf))) \<and>
   startswith (dict_get (block_properties hash_block) ''Reference'' []) ''#'' \<and>
   parse_symbol_block hash_block 0 0 = None \<and>
   dict_get (block_properties power_block) ''Reference'' [] = ''R9'' \<and>
   is_power ''power:GND'' \<and>
   parse_symbol_block power_block 0 0 = None"
proof -
  have h1: "hd (parse mixed_buf) \<in> set (parse mixed_buf)"
    by code_simp
  have r1: "reference (hd (parse mixed_buf)) = ''R1''"
    by code_simp
  have h2: "startswith (dict_get (block_properties hash_block) ''Reference'' []) ''#''"
    by code_simp
  have r2: "dict_get (block_properties power_block) ''Reference'' [] = ''R9''"
    by code_simp
  have h3: "rsearch lib_id_pattern power_block =
      Some (8, [''(lib_id'', '' '', [dquote], ''power:GND'', [dquote, CHR '')'']], power_rest)"
    by code_simp
  have h4: "is_power ''power:GND''"
    by code_simp
  have g: "[''(lib_id'', '' '', [dquote], ''power:GND'', [dquote, CHR '')'']] ! 3 = ''power:GND''"
    by simp
  note t = parse_excludes[of mixed_buf]
  from t h1 have "\<not> is_power (lib_id (hd (parse mixed_buf)))"
    by blast
  moreover from t h2 have "parse_symbol_block hash_block 0 0 = None"
    by blast
  moreover from t h3 h4 g have "parse_symbol_block power_block 0 0 = None"
    by metis
  ultimately show ?thesis
    using h1 r1 h2 r2 h4 by simp
qed

section \<open>The pieces of a block around its nodes\<close>

text \<open>What each item of a pattern can have consumed.\<close>

fun conforms :: "rx_item \<Rightarrow> string \<Rightarrow> bool" where
  "conforms (Str l) g = (g = l)"
| "conforms (One c) g = (\<exists>x. g = [x] \<and> cmatch c x)"
| "conforms (Star c) g = (\<forall>x\<in>set g. cmatch c x)"
| "conforms (Plus c) g = (g \<noteq> [] \<and> (\<forall>x\<in>set g. cmatch c x))"

lemma take_takeWhile:
  "k \<le> length (takeWhile P s) \<Longrightarrow> \<forall>x\<in>set (take k s). P x"
proof (induction s arbitrary: k)
  case Nil
  then show ?case by simp
next
  case (Cons a s)
  then show ?case
    by (cases k) (auto split: if_splits)
qed

lemma rmatch_conforms:
  "rmatch p s = Some (gs, r) \<Longrightarrow> list_all2 conforms p gs"
proof (induction p s arbitrary: gs r rule: rmatch.induct)
  case (1 s)
  then show ?case by simp
next
  case (2 l p s)
  then show ?case by (auto split: if_splits)
next
  case (3 c p s)
  then show ?case by (auto split: list.splits if_splits)
next
  case (4 c p s)
  from 4(2) obtain k where k: "k \<le> length (takeWhile (cmatch c) s)"
    "map_option (\<lambda>(gs, r). (take k s # gs, r)) (rmatch p (drop k s)) = Some (gs, r)"
    by (auto dest: backtrack_Some)
  then obtain gs' where g: "rmatch p (drop k s) = Some (gs', r)" "gs = take k s # gs'"
    by auto
  from 4(1)[OF g(1)] g(2) take_takeWhile[OF k(1)] show ?case
    by simp
next
  case (5 c p s)
  from 5(2) obtain k where k: "1 \<le> k" "k \<le> length (takeWhile (cmatch c) s)"
    "map_option (\<lambda>(gs, r). (take k s # gs, r)) (rmatch p (drop k s)) = Some (gs, r)"
    by (auto dest: backtrack_Some)
  then obtain gs' where g: "rmatch p (drop k s) = Some (gs', r)" "gs = take k s # gs'"
    by auto
  have "take k s \<noteq> []"
    using k(1,2) by (cases s) auto
  with 5(1)[OF g(1)] g(2) take_takeWhile[OF k(2)] show ?case
    by simp
qed

text \<open>
  A node header for \<open>name\<close> is the text of group 1: \<open>(property\<close>, white space, the quoted
  name, white space, and the opening quote of the value.
\<close>

definition spaces :: "string \<Rightarrow> bool" where
  "spaces w \<longleftrightarrow> w \<noteq> [] \<and> (\<forall>x\<in>set w. is_space x)"

definition is_header :: "string \<Rightarrow> string \<Rightarrow> bool" where
  "is_header name h \<longleftrightarrow>
     (\<exists>w1 w2. spaces w1 \<and> spaces w2 \<and>
        h = ''(property'' @ w1 @ [dquote] @ name @ [dquote] @ w2 @ [dquote])"

lemma rmatch_named:
  assumes "rmatch (named_pattern name) s = Some (gs, r)"
  shows "\<exists>h old. is_header name h \<and> dquote \<notin> set old \<and> s = h @ old @ dquote # r \<and>
           replacement v gs = h @ v @ [dquote]"
proof -
  from rmatch_conforms[OF assms] obtain g0 g1 g2 g3 g4 g5 g6 where
    gs: "gs = [g0, g1, g2, g3, g4, g5, g6]"
    and c: "g0 = ''(property''" "spaces g1" "g2 = dquote # name @ [dquote]" "spaces g3"
      "g4 = [dquote]" "dquote \<notin> set g5" "g6 = [dquote]"
    unfolding named_pattern_def by (auto simp: list_all2_Cons1 spaces_def)
  from rmatch_sound[OF assms] gs have s: "s = g0 @ g1 @ g2 @ g3 @ g4 @ g5 @ g6 @ r"
    by simp
  let ?h = "g0 @ g1 @ g2 @ g3 @ g4"
  have "is_header name ?h"
    unfolding is_header_def using c by (intro exI[of _ g1] exI[of _ g3]) simp
  moreover have "s = ?h @ g5 @ dquote # r"
    using s c by simp
  moreover have "replacement v gs = ?h @ v @ [dquote]"
    using c by (simp add: replacement_def gs)
  ultimately show ?thesis
    using c(6) by blast
qed


text \<open>
  A node found in a block is given by the text before it, its header and its old value;
  its piece of the block is these three and the closing quote of the value, and its
  piece of the result has the new value in the place of the old one.
\<close>

type_synonym node = "string \<times> string \<times> string"

definition old_piece :: "node \<Rightarrow> string" where
  "old_piece n = (case n of (pre, h, old) \<Rightarrow> pre @ h @ old @ [dquote])"

definition new_piece :: "string \<Rightarrow> node \<Rightarrow> string" where
  "new_piece v n = (case n of (pre, h, old) \<Rightarrow> pre @ h @ v @ [dquote])"

definition node_ok :: "string \<Rightarrow> node \<Rightarrow> bool" where
  "node_ok name n = (case n of (pre, h, old) \<Rightarrow> is_header name h \<and> dquote \<notin> set old)"

definition values_replaced :: "string \<Rightarrow> string \<Rightarrow> string \<Rightarrow> string \<Rightarrow> node list \<Rightarrow> string \<Rightarrow> bool" where
  "values_replaced name v raw res nodes rest \<longleftrightarrow>
     raw = concat (map old_piece nodes) @ rest \<and>
     res = concat (map (new_piece v) nodes) @ rest \<and>
     list_all (node_ok name) nodes"

lemma values_replaced_Cons:
  assumes "values_replaced name v s t nodes rest"
  shows "\<exists>nodes' rest'. values_replaced name v (x # s) (x # t) nodes' rest' \<and> (nodes \<noteq> [] \<longrightarrow> nodes' \<noteq> [])"
proof (cases nodes)
  case Nil
  then have "values_replaced name v (x # s) (x # t) [] (x # rest)"
    using assms by (simp add: values_replaced_def)
  then show ?thesis using Nil by blast
next
  case (Cons n ns)
  obtain pre h old where n: "n = (pre, h, old)"
    by (cases n)
  have "values_replaced name v (x # s) (x # t) ((x # pre, h, old) # ns) rest"
    using assms Cons n by (simp add: values_replaced_def old_piece_def new_piece_def node_ok_def)
  then show ?thesis by blast
qed

lemma rsub_named_aux:
  "p = named_pattern name \<Longrightarrow> repl = replacement v \<Longrightarrow>
   \<exists>nodes rest. values_replaced name v s (rsub p repl s) nodes rest \<and>
     (rsearch p s \<noteq> None \<longrightarrow> nodes \<noteq> [])"
proof (induction p repl s rule: rsub.induct)
  case (1 p repl s)
  note eq = rsub.simps[of p repl s]
  note p = 1(4) and repl = 1(5)
  show ?case
  proof (cases "rmatch p s")
    case None
    show ?thesis
    proof (cases s)
      case Nil
      have "rsub p repl s = []"
        using None Nil by (subst eq) simp
      then have "values_replaced name v s (rsub p repl s) [] []"
        using Nil by (simp add: values_replaced_def)
      moreover have "rsearch p s = None"
        using None Nil by simp
      ultimately show ?thesis
        by blast
    next
      case (Cons x xs)
      from 1(1)[OF None Cons p repl] obtain nodes rest where
        ih: "values_replaced name v xs (rsub p repl xs) nodes rest"
          "rsearch p xs \<noteq> None \<longrightarrow> nodes \<noteq> []"
        by blast
      have r: "rsub p repl s = x # rsub p repl xs"
        using None Cons by (subst eq) simp
      have "rsearch p s \<noteq> None \<longrightarrow> rsearch p xs \<noteq> None"
        using None Cons by simp
      with values_replaced_Cons[OF ih(1), of x] ih(2) show ?thesis
        unfolding Cons r[unfolded Cons] by blast
    qed
  next
    case (Some a)
    then obtain gs r where m: "rmatch p s = Some (gs, r)"
      by (cases a) auto
    have lt: "length r < length s"
      using m unfolding p named_pattern_def by (rule rmatch_Str_shorter)
    from rmatch_named[OF m[unfolded p], of v] obtain h old where
      h: "is_header name h" "dquote \<notin> set old" "s = h @ old @ dquote # r"
        "replacement v gs = h @ v @ [dquote]"
      by blast
    from 1(2)[OF m refl lt p repl] obtain nodes rest where
      ih: "values_replaced name v r (rsub p repl r) nodes rest"
      by blast
    have r: "rsub p repl s = h @ v @ [dquote] @ rsub p repl r"
      using m lt h(4) repl by (subst eq) simp
    have "values_replaced name v (h @ old @ dquote # r) (h @ v @ [dquote] @ rsub p repl r)
        (([], h, old) # nodes) rest"
      using ih h(1,2)
      by (auto simp: values_replaced_def old_piece_def new_piece_def node_ok_def)
    then have "values_replaced name v s (rsub p repl s) (([], h, old) # nodes) rest"
      using h(3) r by simp
    then show ?thesis
      by blast
  qed
qed

lemma rsub_named:
  "\<exists>nodes rest. values_replaced name v s (rsub (named_pattern name) (replacement v) s) nodes rest \<and>
     (rsearch (named_pattern name) s \<noteq> None \<longrightarrow> nodes \<noteq> [])"
  by (rule rsub_named_aux) simp_all

section \<open>The nodes of a name, before and after a substitution\<close>

text \<open>A greedy repetition that is followed by what the rest of the pattern needs succeeds at its first try.\<close>

lemma backtrack_first:
  "m \<le> n \<Longrightarrow> f n = Some r \<Longrightarrow> backtrack f n m = Some r"
  by (cases n) auto

lemma takeWhile_run:
  "\<forall>x\<in>set w. P x \<Longrightarrow> s = [] \<or> \<not> P (hd s) \<Longrightarrow> takeWhile P (w @ s) = w"
  by (induction w) (auto simp: takeWhile_eq_Nil_iff)

lemma rmatch_Str_step:
  "rmatch p s = Some (gs, r) \<Longrightarrow> rmatch (Str l # p) (l @ s) = Some (l # gs, r)"
  by simp

lemma rmatch_Star_step:
  assumes "\<forall>x\<in>set w. cmatch c x" and "s = [] \<or> \<not> cmatch c (hd s)"
    and "rmatch p s = Some (gs, r)"
  shows "rmatch (Star c # p) (w @ s) = Some (w # gs, r)"
proof -
  have "takeWhile (cmatch c) (w @ s) = w"
    using assms(1,2) by (rule takeWhile_run)
  then show ?thesis
    using assms(3) by (simp add: backtrack_first)
qed

lemma rmatch_Plus_step:
  assumes "w \<noteq> []" and "\<forall>x\<in>set w. cmatch c x" and "s = [] \<or> \<not> cmatch c (hd s)"
    and "rmatch p s = Some (gs, r)"
  shows "rmatch (Plus c # p) (w @ s) = Some (w # gs, r)"
proof -
  have "takeWhile (cmatch c) (w @ s) = w"
    using assms(2,3) by (rule takeWhile_run)
  moreover have "1 \<le> length w"
    using assms(1) by (simp add: Suc_le_eq)
  ultimately show ?thesis
    using assms(4) by (simp add: backtrack_first)
qed

lemma not_space_dquote [simp]: "\<not> is_space dquote"
  by (simp add: is_space_def dquote_def)

lemma rmatch_header:
  assumes "spaces w1" and "spaces w2" and "dquote \<notin> set val"
  shows "rmatch (named_pattern name)
           (''(property'' @ w1 @ (dquote # name @ [dquote]) @ w2 @ [dquote] @ val @ [dquote] @ t) =
         Some ([''(property'', w1, dquote # name @ [dquote], w2, [dquote], val, [dquote]], t)"
  unfolding named_pattern_def
  apply (rule rmatch_Str_step)
  apply (rule rmatch_Plus_step)
  using assms(1) apply (simp add: spaces_def)
  using assms(1) apply (simp add: spaces_def)
   apply simp
  apply (rule rmatch_Str_step)
  apply (rule rmatch_Plus_step)
  using assms(2) apply (simp add: spaces_def)
  using assms(2) apply (simp add: spaces_def)
   apply simp
  apply (rule rmatch_Str_step)
  apply (rule rmatch_Star_step)
  using assms(3) apply auto[1]
   apply simp
  apply (rule rmatch_Str_step)
  apply simp
  done

lemma rmatch_is_header:
  assumes "is_header name h" and "dquote \<notin> set val"
  shows "\<exists>gs. rmatch (named_pattern name) (h @ val @ dquote # t) = Some (gs, t) \<and>
           gs ! 5 = val \<and> replacement v gs = h @ v @ [dquote]"
proof -
  from assms(1) obtain w1 w2 where w: "spaces w1" "spaces w2"
    "h = ''(property'' @ w1 @ [dquote] @ name @ [dquote] @ w2 @ [dquote]"
    unfolding is_header_def by blast
  from rmatch_header[OF w(1,2) assms(2), of name t] show ?thesis
    by (simp add: w(3) replacement_def)
qed


text \<open>The values of the nodes named \<open>name\<close> that \<open>re.finditer\<close> finds in a block, in order.\<close>

definition node_values :: "string \<Rightarrow> string \<Rightarrow> string list" where
  "node_values name s = map (\<lambda>gs. gs ! 5) (rfinditer (named_pattern name) s)"

lemma is_header_quotes:
  assumes "is_header name h"
  shows "count_list h dquote = 3 + count_list name dquote" and "h \<noteq> []" and "last h = dquote"
proof -
  from assms obtain w1 w2 where w: "spaces w1" "spaces w2"
    "h = ''(property'' @ w1 @ [dquote] @ name @ [dquote] @ w2 @ [dquote]"
    unfolding is_header_def by blast
  have "count_list w1 dquote = 0" "count_list w2 dquote = 0"
    using w(1,2) by (auto simp: spaces_def count_list_0_iff)
  then show "count_list h dquote = 3 + count_list name dquote"
    by (simp add: w(3) dquote_def)
  show "h \<noteq> []" "last h = dquote"
    by (simp_all add: w(3))
qed

lemma split_at_quote:
  "\<exists>val rest. dquote \<notin> set val \<and> y @ dquote # s = val @ dquote # rest"
proof -
  let ?val = "takeWhile (\<lambda>x. x \<noteq> dquote) (y @ dquote # s)"
  let ?rest = "dropWhile (\<lambda>x. x \<noteq> dquote) (y @ dquote # s)"
  have "?rest \<noteq> []"
    by (simp add: dropWhile_eq_Nil_conv)
  moreover have "hd ?rest = dquote"
    using hd_dropWhile[OF \<open>?rest \<noteq> []\<close>] by simp
  ultimately have "?rest = dquote # tl ?rest"
    by (cases ?rest) auto
  then have "y @ dquote # s = ?val @ dquote # tl ?rest"
    by (metis takeWhile_dropWhile_id)
  moreover have "dquote \<notin> set ?val"
    by (auto dest: set_takeWhileD)
  ultimately show ?thesis
    by blast
qed

lemma no_new_match_at_front:
  assumes "rmatch (named_pattern name) s = None"
    and "values_replaced name v s t nodes rest"
  shows "rmatch (named_pattern name) t = None"
proof (cases nodes)
  case Nil
  then show ?thesis
    using assms by (simp add: values_replaced_def)
next
  case (Cons n ns)
  obtain pre h old where n: "n = (pre, h, old)"
    by (cases n)
  from assms(2) Cons n obtain s' t' where
    s: "s = (pre @ h) @ old @ dquote # s'" and t: "t = (pre @ h) @ v @ dquote # t'"
    and h: "is_header name h"
    by (auto simp: values_replaced_def old_piece_def new_piece_def node_ok_def)
  show ?thesis
  proof (rule ccontr)
    assume "rmatch (named_pattern name) t \<noteq> None"
    then obtain gs r where m: "rmatch (named_pattern name) t = Some (gs, r)"
      by auto
    from rmatch_named[OF m, of v] obtain H val where
      H: "is_header name H" "t = H @ val @ dquote # r"
      by blast
    from t H(2) have "H @ (val @ dquote # r) = (pre @ h) @ (v @ dquote # t')"
      by simp
    then consider (short) us where "H @ us = pre @ h"
      | (long) us where "us \<noteq> []" "H = (pre @ h) @ us"
      by (auto simp: append_eq_append_conv2) (metis append.right_neutral)+
    then show False
    proof cases
      case short
      then have "s = H @ (us @ old) @ dquote # s'"
        using s by (metis append.assoc)
      moreover obtain val' rest' where "dquote \<notin> set val'"
        "(us @ old) @ dquote # s' = val' @ dquote # rest'"
        using split_at_quote by blast
      ultimately have "s = H @ val' @ dquote # rest'" "dquote \<notin> set val'"
        by simp_all
      with rmatch_is_header[OF H(1), of val' rest' v] assms(1) show False
        by simp
    next
      case long
      have "last us = dquote"
        using long is_header_quotes(3)[OF H(1)] by simp
      then have "dquote \<in> set us"
        using long(1) last_in_set by metis
      then have "0 < count_list us dquote"
        by (simp add: count_list_0_iff zero_less_iff_neq_zero)
      moreover have "count_list H dquote = count_list pre dquote + count_list h dquote + count_list us dquote"
        by (simp add: long(2))
      ultimately show False
        using is_header_quotes(1)[OF H(1)] is_header_quotes(1)[OF h] by simp
    qed
  qed
qed


lemma rfinditer_None:
  "rmatch p (x # xs) = None \<Longrightarrow> rfinditer p (x # xs) = rfinditer p xs"
  by (subst rfinditer.simps) simp

lemma rfinditer_Some:
  "rmatch p s = Some (gs, r) \<Longrightarrow> length r < length s \<Longrightarrow> rfinditer p s = gs # rfinditer p r"
  by (subst rfinditer.simps) simp

lemma rsub_None:
  "rmatch p (x # xs) = None \<Longrightarrow> rsub p repl (x # xs) = x # rsub p repl xs"
  by (subst rsub.simps) simp

lemma rsub_Some:
  "rmatch p s = Some (gs, r) \<Longrightarrow> length r < length s \<Longrightarrow> rsub p repl s = repl gs @ rsub p repl r"
  by (subst rsub.simps) simp

lemma rsearch_finditer: "rsearch p s = None \<longleftrightarrow> rfinditer p s = []"
proof (induction s)
  case Nil
  show ?case
    by (subst rfinditer.simps) (auto split: option.splits)
next
  case (Cons x xs)
  show ?case
  proof (cases "rmatch p (x # xs)")
    case None
    then show ?thesis
      using Cons by (simp add: rfinditer_None)
  next
    case (Some a)
    then show ?thesis
      by (subst rfinditer.simps) (auto split: list.splits prod.splits)
  qed
qed

lemma rsearch_append: "rmatch p t \<noteq> None \<Longrightarrow> rsearch p (pre @ t) \<noteq> None"
proof (induction pre)
  case Nil
  then show ?case by (cases t) auto
next
  case (Cons a pre)
  then show ?case by (auto split: option.splits)
qed

lemma values_after_rsub_aux:
  "p = named_pattern name \<Longrightarrow> repl = replacement v \<Longrightarrow> dquote \<notin> set v \<Longrightarrow>
   map (\<lambda>gs. gs ! 5) (rfinditer p (rsub p repl s)) = replicate (length (rfinditer p s)) v"
proof (induction p repl s rule: rsub.induct)
  case (1 p repl s)
  note p = 1(4) and repl = 1(5) and v = 1(6)
  show ?case
  proof (cases "rmatch p s")
    case None
    show ?thesis
    proof (cases s)
      case Nil
      have "rsub p repl [] = []"
        using None Nil by (subst rsub.simps) simp
      moreover have "rfinditer p [] = []"
        using None Nil by (subst rfinditer.simps) simp
      ultimately show ?thesis
        using Nil by simp
    next
      case (Cons x xs)
      from rsub_named[of name v s] obtain nodes rest where
        "values_replaced name v s (rsub p repl s) nodes rest"
        unfolding p repl by blast
      from no_new_match_at_front[OF None[unfolded p] this[unfolded p]]
      have "rmatch p (rsub p repl s) = None"
        unfolding p .
      then have "rmatch p (x # rsub p repl xs) = None"
        using None Cons by (simp add: rsub_None)
      then have "rfinditer p (rsub p repl s) = rfinditer p (rsub p repl xs)"
        using None Cons by (simp add: rsub_None rfinditer_None)
      moreover have "rfinditer p s = rfinditer p xs"
        using None Cons by (simp add: rfinditer_None)
      ultimately show ?thesis
        using 1(1)[OF None Cons p repl v] by simp
    qed
  next
    case (Some a)
    then obtain gs r where m: "rmatch p s = Some (gs, r)"
      by (cases a) auto
    have lt: "length r < length s"
      using m unfolding p named_pattern_def by (rule rmatch_Str_shorter)
    from rmatch_named[OF m[unfolded p], of v] obtain h old where
      h: "is_header name h" "replacement v gs = h @ v @ [dquote]"
      by blast
    let ?t = "rsub p repl r"
    have r: "rsub p repl s = h @ v @ dquote # ?t"
      using m lt h(2) repl by (simp add: rsub_Some)
    from rmatch_is_header[OF h(1) v, of ?t v] obtain gs' where
      g: "rmatch p (h @ v @ dquote # ?t) = Some (gs', ?t)" "gs' ! 5 = v"
      unfolding p by blast
    have "rfinditer p (rsub p repl s) = gs' # rfinditer p ?t"
      unfolding r using g(1) by (rule rfinditer_Some) simp
    moreover have "rfinditer p s = gs # rfinditer p r"
      using m lt by (rule rfinditer_Some)
    ultimately show ?thesis
      using 1(2)[OF m refl lt p repl v] g(2) by simp
  qed
qed

lemma node_values_rsub:
  assumes "dquote \<notin> set v"
  shows "node_values name (rsub (named_pattern name) (replacement v) s) =
         replicate (length (node_values name s)) v"
  unfolding node_values_def using values_after_rsub_aux[OF refl refl assms, of name s]
  by simp

lemma new_prop_header:
  "\<exists>h t. is_header name h \<and> new_prop indent name v coords = ([newline] @ indent) @ h @ v @ dquote # t"
proof -
  let ?h = "''(property'' @ '' '' @ [dquote] @ name @ [dquote] @ '' '' @ [dquote]"
  have "is_header name ?h"
    unfolding is_header_def
    by (intro exI[of _ "'' ''"] conjI) (simp_all add: spaces_def is_space_def)
  moreover have "new_prop indent name v coords = ([newline] @ indent) @ ?h @ v @ dquote #
      ('' (at '' @ coords @ '')'' @ [newline] @ indent @ [tab] @
       ''(effects (font (size 1.27 1.27)) hide)'' @ [newline] @ indent @ '')'')"
    by (simp add: new_prop_def)
  ultimately show ?thesis
    by blast
qed

lemma update_property_present:
  assumes "dquote \<notin> set v"
  shows "rsearch (named_pattern name) (update_property raw name v) \<noteq> None"
proof (cases "rsearch (named_pattern name) raw = None")
  case True
  let ?p = "fst (insertion_point raw)" and ?i = "snd (insertion_point raw)"
  from new_prop_header[of name ?i v "at_coords_of raw"] obtain h t where
    h: "is_header name h" "new_prop ?i name v (at_coords_of raw) = ([newline] @ ?i) @ h @ v @ dquote # t"
    by blast
  have "update_property raw name v =
      (slice_to ?p raw @ [newline] @ ?i) @ (h @ v @ dquote # (t @ slice_from ?p raw))"
    using update_property_absent[OF True, of v] h(2) by simp
  moreover have "rmatch (named_pattern name) (h @ v @ dquote # (t @ slice_from ?p raw)) \<noteq> None"
    using rmatch_is_header[OF h(1) assms, of "t @ slice_from ?p raw" v] by auto
  ultimately show ?thesis
    using rsearch_append by metis
next
  case False
  then have "node_values name raw \<noteq> []"
    by (simp add: rsearch_finditer node_values_def)
  then have "node_values name (rsub (named_pattern name) (replacement v) raw) \<noteq> []"
    using node_values_rsub[OF assms, of name raw] by simp
  then show ?thesis
    using False by (simp add: update_property_def rsearch_finditer node_values_def)
qed

section \<open>Rewriting an attribute in place (C7)\<close>

text \<open>
  The nodes that the substitution walks over: each one is the first match of the
  pattern in what remained of the block, its header is group 1 of that match and its
  old value the text between the quotes; after the last one the pattern matches
  nowhere.
\<close>

fun scanned :: "string \<Rightarrow> node list \<Rightarrow> string \<Rightarrow> bool" where
  "scanned name [] rest \<longleftrightarrow> rsearch (named_pattern name) rest = None"
| "scanned name (n # ns) rest \<longleftrightarrow>
     (case n of (pre, h, old) \<Rightarrow>
        (\<exists>gs. rsearch (named_pattern name) (old_piece n @ concat (map old_piece ns) @ rest) =
                 Some (length pre, gs, concat (map old_piece ns) @ rest) \<and>
              concat (take 5 gs) = h \<and> gs ! 5 = old)) \<and>
     scanned name ns rest"

lemma rsearch_hit: "rmatch p s = Some (gs, r) \<Longrightarrow> rsearch p s = Some (0, gs, r)"
  by (cases s) auto

lemma rsearch_miss:
  "rmatch p (x # xs) = None \<Longrightarrow> rsearch p xs = Some (i, gs, r) \<Longrightarrow>
   rsearch p (x # xs) = Some (Suc i, gs, r)"
  by simp

lemma rmatch_named_groups:
  assumes "rmatch (named_pattern name) s = Some (gs, r)"
  shows "\<exists>h old. is_header name h \<and> dquote \<notin> set old \<and> s = h @ old @ dquote # r \<and>
           concat (take 5 gs) = h \<and> gs ! 5 = old \<and> replacement v gs = h @ v @ [dquote]"
proof -
  from rmatch_conforms[OF assms] obtain g0 g1 g2 g3 g4 g5 g6 where
    gs: "gs = [g0, g1, g2, g3, g4, g5, g6]"
    and c: "g0 = ''(property''" "spaces g1" "g2 = dquote # name @ [dquote]" "spaces g3"
      "g4 = [dquote]" "dquote \<notin> set g5" "g6 = [dquote]"
    unfolding named_pattern_def by (auto simp: list_all2_Cons1 spaces_def)
  from rmatch_sound[OF assms] gs have s: "s = g0 @ g1 @ g2 @ g3 @ g4 @ g5 @ g6 @ r"
    by simp
  let ?h = "g0 @ g1 @ g2 @ g3 @ g4"
  have "is_header name ?h"
    unfolding is_header_def using c by (intro exI[of _ g1] exI[of _ g3]) simp
  moreover have "s = ?h @ g5 @ dquote # r"
    using s c by simp
  moreover have "replacement v gs = ?h @ v @ [dquote]"
    using c by (simp add: replacement_def gs)
  moreover have "concat (take 5 gs) = ?h" "gs ! 5 = g5"
    by (simp_all add: gs)
  ultimately show ?thesis
    using c(6) by blast
qed

lemma rsub_scanned_aux:
  "p = named_pattern name \<Longrightarrow> repl = replacement v \<Longrightarrow>
   \<exists>nodes rest. scanned name nodes rest \<and> list_all (node_ok name) nodes \<and>
     s = concat (map old_piece nodes) @ rest \<and>
     rsub p repl s = concat (map (new_piece v) nodes) @ rest \<and>
     map (\<lambda>n. snd (snd n)) nodes = map (\<lambda>gs. gs ! 5) (rfinditer p s)"
proof (induction p repl s rule: rsub.induct)
  case (1 p repl s)
  note p = 1(4) and repl = 1(5)
  show ?case
  proof (cases "rmatch p s")
    case None
    show ?thesis
    proof (cases s)
      case Nil
      have "rsub p repl s = []" "rfinditer p s = []"
        using None Nil by (simp_all add: rsub.simps rfinditer.simps)
      moreover have "scanned name [] []"
        using None Nil p by simp
      ultimately show ?thesis
        using Nil by (intro exI[of _ "[]"]) simp
    next
      case (Cons x xs)
      from 1(1)[OF None Cons p repl] obtain nodes rest where
        ih: "scanned name nodes rest" "list_all (node_ok name) nodes"
          "xs = concat (map old_piece nodes) @ rest"
          "rsub p repl xs = concat (map (new_piece v) nodes) @ rest"
          "map (\<lambda>n. snd (snd n)) nodes = map (\<lambda>gs. gs ! 5) (rfinditer p xs)"
        by blast
      have r: "rsub p repl s = x # rsub p repl xs" "rfinditer p s = rfinditer p xs"
        using None unfolding Cons by (simp_all add: rsub_None rfinditer_None)
      show ?thesis
      proof (cases nodes)
        case Nil
        have "rsearch p (x # rest) = None"
          using None ih(1,3) Nil Cons p by simp
        then have "scanned name [] (x # rest)"
          using p by simp
        then show ?thesis
          using ih(3-5) r Nil Cons by (intro exI[of _ "[]"] exI[of _ "x # rest"]) simp
      next
        case nodes: (Cons n ns)
        obtain pre h old where n: "n = (pre, h, old)"
          by (cases n)
        let ?T = "concat (map old_piece ns) @ rest"
        from ih(1) obtain gs where
          g: "rsearch p (old_piece n @ ?T) = Some (length pre, gs, ?T)"
            "concat (take 5 gs) = h" "gs ! 5 = old"
          and ns: "scanned name ns rest"
          unfolding nodes n p by auto
        have xs: "xs = old_piece n @ ?T"
          using ih(3) nodes by simp
        have sm: "rsearch p (x # old_piece n @ ?T) = Some (Suc (length pre), gs, ?T)"
          using None g(1) unfolding Cons xs by (rule rsearch_miss)
        have op: "old_piece (x # pre, h, old) @ ?T = x # old_piece n @ ?T"
          by (simp add: old_piece_def n)
        have "rsearch p (old_piece (x # pre, h, old) @ ?T) =
            Some (length (x # pre), gs, ?T)"
          unfolding op sm by simp
        with g(2,3) ns have sc: "scanned name ((x # pre, h, old) # ns) rest"
          unfolding p by auto
        have ok: "list_all (node_ok name) ((x # pre, h, old) # ns)"
          using ih(2) nodes n by (simp add: node_ok_def)
        have e1: "s = concat (map old_piece ((x # pre, h, old) # ns)) @ rest"
          using Cons xs n by (simp add: old_piece_def)
        have e2: "rsub p repl s = concat (map (new_piece v) ((x # pre, h, old) # ns)) @ rest"
          using r(1) ih(4) nodes n by (simp add: new_piece_def)
        have e3: "map (\<lambda>n. snd (snd n)) ((x # pre, h, old) # ns) = map (\<lambda>gs. gs ! 5) (rfinditer p s)"
          using r(2) ih(5) nodes n by simp
        from sc ok e1 e2 e3 show ?thesis
          by blast
      qed
    qed
  next
    case (Some a)
    then obtain gs r where m: "rmatch p s = Some (gs, r)"
      by (cases a) auto
    have lt: "length r < length s"
      using m unfolding p named_pattern_def by (rule rmatch_Str_shorter)
    from rmatch_named_groups[OF m[unfolded p], of v] obtain h old where
      h: "is_header name h" "dquote \<notin> set old" "s = h @ old @ dquote # r"
        "concat (take 5 gs) = h" "gs ! 5 = old" "replacement v gs = h @ v @ [dquote]"
      by blast
    from 1(2)[OF m refl lt p repl] obtain nodes rest where
      ih: "scanned name nodes rest" "list_all (node_ok name) nodes"
        "r = concat (map old_piece nodes) @ rest"
        "rsub p repl r = concat (map (new_piece v) nodes) @ rest"
        "map (\<lambda>n. snd (snd n)) nodes = map (\<lambda>gs. gs ! 5) (rfinditer p r)"
      by blast
    have rs: "rsub p repl s = h @ v @ [dquote] @ rsub p repl r"
      using m lt h(6) repl by (simp add: rsub_Some)
    have rf: "rfinditer p s = gs # rfinditer p r"
      using m lt by (rule rfinditer_Some)
    have op: "old_piece ([], h, old) @ r = s"
      using h(3) by (simp add: old_piece_def)
    have "rsearch p (old_piece ([], h, old) @ r) = Some (0, gs, r)"
      unfolding op using m by (rule rsearch_hit)
    then have sc: "scanned name (([], h, old) # nodes) rest"
      using h(4,5) ih(1,3) unfolding p by auto
    have ok: "list_all (node_ok name) (([], h, old) # nodes)"
      using ih(2) h(1,2) by (simp add: node_ok_def)
    have e1: "s = concat (map old_piece (([], h, old) # nodes)) @ rest"
      using h(3) ih(3) by (simp add: old_piece_def)
    have e2: "rsub p repl s = concat (map (new_piece v) (([], h, old) # nodes)) @ rest"
      using rs ih(4) by (simp add: new_piece_def)
    have e3: "map (\<lambda>n. snd (snd n)) (([], h, old) # nodes) = map (\<lambda>gs. gs ! 5) (rfinditer p s)"
      using rf ih(5) h(5) by simp
    from sc ok e1 e2 e3 show ?thesis
      by blast
  qed
qed

text \<open>
  Claim C7, as the code has it.  When the block has an attribute node with the target
  name, the block is a sequence of pieces, each ending with such a node up to the
  closing quote of its value, followed by a rest.  The nodes of the pieces are all the
  nodes of that name that the scan finds, in order: each is the first match in what
  remained, and the rest has none.  The result of the upsert is the same sequence with
  the old value of every one of these nodes replaced by the new value: headers, the
  text between the nodes and the rest are the same bytes, and the length changes by
  the lengths of the values only.  (\<open>re.sub\<close> replaces every match, not only the first.)
\<close>

theorem update_property_in_place:
  assumes "rsearch (named_pattern name) raw \<noteq> None"
    and "regex_literal name" and "template_literal v"
  shows "\<exists>nodes rest. nodes \<noteq> [] \<and> scanned name nodes rest \<and> list_all (node_ok name) nodes \<and>
           raw = concat (map old_piece nodes) @ rest \<and>
           update_property raw name v = concat (map (new_piece v) nodes) @ rest \<and>
           map (\<lambda>n. snd (snd n)) nodes = node_values name raw \<and>
           length (update_property raw name v) + length (concat (node_values name raw)) =
             length raw + length nodes * length v"
proof -
  from rsub_scanned_aux[OF refl refl, of name raw v] obtain nodes rest where
    n: "scanned name nodes rest" "list_all (node_ok name) nodes"
      "raw = concat (map old_piece nodes) @ rest"
      "rsub (named_pattern name) (replacement v) raw = concat (map (new_piece v) nodes) @ rest"
      "map (\<lambda>n. snd (snd n)) nodes = node_values name raw"
    unfolding node_values_def by blast
  have u: "update_property raw name v = rsub (named_pattern name) (replacement v) raw"
    using assms(1) by (simp add: update_property_def)
  have "node_values name raw \<noteq> []"
    using assms(1) by (simp add: rsearch_finditer node_values_def)
  then have ne: "nodes \<noteq> []"
    using n(5) by auto
  have l: "length (concat (map (new_piece v) ns)) + length (concat (map (\<lambda>n. snd (snd n)) ns)) =
      length (concat (map old_piece ns)) + length ns * length v" for ns :: "node list"
    by (induction ns) (auto simp: new_piece_def old_piece_def)
  have "length (update_property raw name v) + length (concat (node_values name raw)) =
             length raw + length nodes * length v"
    unfolding u n(4) n(5)[symmetric] using l[of nodes] n(3) by simp
  with ne n u show ?thesis
    by metis
qed

text \<open>
  A record block with two nodes named \<open>LCSC\<close>, and what the upsert of \<open>C9\<close> makes of it.
\<close>

definition dup_block :: string where
  "dup_block = ''(symbol (lib_id '' @ [dquote] @ ''Device:R'' @ [dquote] @ '') (property '' @ [dquote] @
     ''Reference'' @ [dquote] @ '' '' @ [dquote] @ ''R1'' @ [dquote] @ '' (at 1 2 0)) (property '' @
     [dquote] @ ''LCSC'' @ [dquote] @ '' '' @ [dquote] @ ''A1'' @
     [dquote] @ '' (at 0 0 0)) (property '' @ [dquote] @ ''LCSC'' @ [dquote] @ '' '' @ [dquote] @
     ''B2'' @ [dquote] @ '' (at 1 1 0)))''"

definition dup_result :: string where
  "dup_result = ''(symbol (lib_id '' @ [dquote] @ ''Device:R'' @ [dquote] @ '') (property '' @ [dquote] @
     ''Reference'' @ [dquote] @ '' '' @ [dquote] @ ''R1'' @ [dquote] @ '' (at 1 2 0)) (property '' @
     [dquote] @ ''LCSC'' @ [dquote] @ '' '' @ [dquote] @ ''C9'' @
     [dquote] @ '' (at 0 0 0)) (property '' @ [dquote] @ ''LCSC'' @ [dquote] @ '' '' @ [dquote] @
     ''C9'' @ [dquote] @ '' (at 1 1 0)))''"

theorem update_property_in_place_witness:
  "rsearch (named_pattern ''LCSC'') dup_block \<noteq> None \<and> regex_literal ''LCSC'' \<and>
   template_literal ''C9'' \<and>
   map raw_content (parse dup_block) = [dup_block] \<and>
   node_values ''LCSC'' dup_block = [''A1'', ''B2''] \<and>
   (\<exists>nodes rest. length nodes = 2 \<and> scanned ''LCSC'' nodes rest \<and>
      dup_block = concat (map old_piece nodes) @ rest \<and>
      update_property dup_block ''LCSC'' ''C9'' = concat (map (new_piece ''C9'') nodes) @ rest \<and>
      map (\<lambda>n. snd (snd n)) nodes = [''A1'', ''B2''])"
proof -
  have h1: "rsearch (named_pattern ''LCSC'') dup_block \<noteq> None"
    by code_simp
  have h2: "regex_literal ''LCSC''"
    by code_simp
  have h3: "template_literal ''C9''"
    by code_simp
  have t: "map raw_content (parse dup_block) = [dup_block]"
    by code_simp
  have n: "node_values ''LCSC'' dup_block = [''A1'', ''B2'']"
    by code_simp
  from update_property_in_place[OF h1 h2 h3] obtain nodes rest where
    r: "scanned ''LCSC'' nodes rest" "dup_block = concat (map old_piece nodes) @ rest"
      "update_property dup_block ''LCSC'' ''C9'' = concat (map (new_piece ''C9'') nodes) @ rest"
      "map (\<lambda>n. snd (snd n)) nodes = node_values ''LCSC'' dup_block"
    by blast
  from r(4) have "length nodes = 2"
    unfolding n by (metis length_map length_Cons list.size(3) numeral_2_eq_2)
  with r h1 h2 h3 t n show ?thesis
    by metis
qed

text \<open>
  The claim C7 as stated, that only the quoted value of one node changes, fails on
  \<open>dup_block\<close>, the block of a record that extraction tracks: the values of both nodes
  are replaced, so bytes on both sides of the quote at offset 87 differ between the
  block and the result.
\<close>

theorem single_value_counterexample:
  "map raw_content (parse dup_block) = [dup_block] \<and>
   rsearch (named_pattern ''LCSC'') dup_block \<noteq> None \<and>
   update_property dup_block ''LCSC'' ''C9'' = dup_result \<and>
   dup_block ! 85 = CHR ''A'' \<and> dup_result ! 85 = CHR ''C'' \<and>
   dup_block ! 87 = dquote \<and> dup_result ! 87 = dquote \<and>
   dup_block ! 119 = CHR ''B'' \<and> dup_result ! 119 = CHR ''C''"
  by code_simp


section \<open>Upserting two attributes in either order (C3)\<close>

subsection \<open>Searching: where the first match is\<close>

lemma rsearch_None_all:
  "rsearch p s = None \<Longrightarrow> rmatch p (drop i s) = None"
proof (induction s arbitrary: i)
  case Nil
  then show ?case by (cases "rmatch p []") auto
next
  case (Cons x xs)
  then show ?case
    by (cases i) (auto split: option.splits)
qed

lemma rsearch_NoneI:
  "(\<And>i. i \<le> length s \<Longrightarrow> rmatch p (drop i s) = None) \<Longrightarrow> rsearch p s = None"
proof (induction s)
  case Nil
  from Nil[of 0] show ?case by simp
next
  case (Cons x xs)
  have "rmatch p (drop i xs) = None" if "i \<le> length xs" for i
    using Cons.prems[of "Suc i"] that by simp
  with Cons.IH have "rsearch p xs = None"
    by blast
  moreover have "rmatch p (x # xs) = None"
    using Cons.prems[of 0] by simp
  ultimately show ?case by simp
qed

lemma rsearch_Some_before:
  "rsearch p s = Some (k, gs, r) \<Longrightarrow> i < k \<Longrightarrow> rmatch p (drop i s) = None"
proof (induction s arbitrary: i k)
  case Nil
  then show ?case by auto
next
  case (Cons x xs)
  show ?case
  proof (cases "rmatch p (x # xs)")
    case None
    with Cons.prems obtain k' where k: "k = Suc k'" "rsearch p xs = Some (k', gs, r)"
      by auto
    show ?thesis
    proof (cases i)
      case 0
      then show ?thesis using None by simp
    next
      case (Suc i')
      with Cons.IH[OF k(2), of i'] Cons.prems(2) k(1) show ?thesis by simp
    qed
  next
    case (Some a)
    with Cons.prems show ?thesis by (cases a) auto
  qed
qed

lemma rsearch_SomeI:
  "(\<And>i. i < k \<Longrightarrow> rmatch p (drop i s) = None) \<Longrightarrow> k \<le> length s \<Longrightarrow>
   rmatch p (drop k s) = Some (gs, r) \<Longrightarrow> rsearch p s = Some (k, gs, r)"
proof (induction s arbitrary: k)
  case Nil
  then show ?case by simp
next
  case (Cons x xs)
  show ?case
  proof (cases k)
    case 0
    then show ?thesis using Cons.prems(3) by simp
  next
    case (Suc k')
    have "rmatch p (drop i xs) = None" if "i < k'" for i
      using Cons.prems(1)[of "Suc i"] that Suc by simp
    from Cons.IH[OF this, of k'] Cons.prems(2,3) Suc
    have "rsearch p xs = Some (k', gs, r)"
      by simp
    moreover have "rmatch p (x # xs) = None"
      using Cons.prems(1)[of 0] Suc by simp
    ultimately show ?thesis
      using Suc by simp
  qed
qed

subsection \<open>White space followed by something else\<close>

definition blank :: "string \<Rightarrow> bool" where
  "blank w \<longleftrightarrow> (\<forall>x\<in>set w. is_space x)"

lemma blank_simps [simp]:
  "blank []" "blank (x # w) \<longleftrightarrow> is_space x \<and> blank w" "blank (u @ w) \<longleftrightarrow> blank u \<and> blank w"
  by (auto simp: blank_def)

lemma ws_prefix_unique:
  assumes "blank a" and "blank b" and "\<not> is_space c" and "\<not> is_space d"
    and "a @ c # s = b @ d # t"
  shows "a = b \<and> c = d \<and> s = t"
proof -
  have "takeWhile is_space (a @ c # s) = a" "takeWhile is_space (b @ d # t) = b"
    using assms(1-4) by (auto simp: blank_def intro!: takeWhile_run)
  with assms(5) have "a = b"
    by simp
  with assms(5) show ?thesis
    by simp
qed

lemma blank_split:
  "blank a \<or> (\<exists>u d z. a = u @ d # z \<and> blank u \<and> \<not> is_space d)"
proof (induction a)
  case Nil
  then show ?case by simp
next
  case (Cons x a)
  show ?case
  proof (cases "is_space x")
    case False
    then have "x # a = [] @ x # a \<and> blank [] \<and> \<not> is_space x"
      by simp
    then show ?thesis by blast
  next
    case True
    from Cons show ?thesis
    proof
      assume "blank a"
      then show ?thesis using True by simp
    next
      assume "\<exists>u d z. a = u @ d # z \<and> blank u \<and> \<not> is_space d"
      then obtain u d z where "a = u @ d # z" "blank u" "\<not> is_space d"
        by blast
      then have "x # a = (x # u) @ d # z \<and> blank (x # u) \<and> \<not> is_space d"
        using True by simp
      then show ?thesis by blast
    qed
  qed
qed

text \<open>A literal at the seam of two texts lies in the first or reaches into the second.\<close>

lemma literal_at_seam:
  assumes "a @ x = l @ t"
  shows "(\<exists>a'. a = l @ a' \<and> t = a' @ x) \<or> (\<exists>l1 l2. l2 \<noteq> [] \<and> l = l1 @ l2 \<and> a = l1 \<and> x = l2 @ t)"
  using assms by (auto simp: append_eq_append_conv2)


subsection \<open>The shape of a pin match and of a node match\<close>

lemma spaces_blank: "spaces w \<longleftrightarrow> w \<noteq> [] \<and> blank w"
  by (simp add: spaces_def blank_def)

lemma not_space_paren [simp]: "\<not> is_space (CHR ''('')" "\<not> is_space (CHR '')'')"
  by (simp_all add: is_space_def)

lemma is_space_newline [simp]: "is_space newline" "is_space tab" "is_space (CHR '' '')"
  by (simp_all add: is_space_def newline_def tab_def)

lemma rmatch_pin_elim:
  assumes "rmatch pin_pattern t = Some (gs, r)"
  shows "\<exists>g1 g3. blank g1 \<and> spaces g3 \<and> gs = [[newline], g1, ''(pin'', g3, [dquote]] \<and>
           t = newline # g1 @ ''(pin'' @ g3 @ dquote # r"
proof -
  from rmatch_conforms[OF assms] obtain g0 g1 g2 g3 g4 where
    gs: "gs = [g0, g1, g2, g3, g4]"
    and c: "g0 = [newline]" "blank g1" "g2 = ''(pin''" "spaces g3" "g4 = [dquote]"
    unfolding pin_pattern_def by (auto simp: list_all2_Cons1 spaces_def blank_def)
  from rmatch_sound[OF assms] gs c show ?thesis
    by simp
qed

lemma rmatch_pin_intro:
  assumes "blank g1" and "spaces g3"
  shows "rmatch pin_pattern (newline # g1 @ ''(pin'' @ g3 @ dquote # r) =
         Some ([[newline], g1, ''(pin'', g3, [dquote]], r)"
proof -
  have "rmatch pin_pattern ([newline] @ g1 @ ''(pin'' @ g3 @ [dquote] @ r) =
         Some ([[newline], g1, ''(pin'', g3, [dquote]], r)"
    unfolding pin_pattern_def
    apply (rule rmatch_Str_step)
    apply (rule rmatch_Star_step)
    using assms(1) apply (simp add: blank_def)
     apply simp
    apply (rule rmatch_Str_step)
    apply (rule rmatch_Plus_step)
    using assms(2) apply (simp add: spaces_def)
    using assms(2) apply (simp add: spaces_def)
     apply simp
    apply (rule rmatch_Str_step)
    apply simp
    done
  then show ?thesis by simp
qed

lemma rmatch_named_elim:
  assumes "rmatch (named_pattern name) t = Some (gs, r)"
  shows "\<exists>g1 g3 g5. spaces g1 \<and> spaces g3 \<and> dquote \<notin> set g5 \<and>
           t = ''(property'' @ g1 @ (dquote # name @ [dquote]) @ g3 @ dquote # g5 @ dquote # r"
proof -
  from rmatch_conforms[OF assms] obtain g0 g1 g2 g3 g4 g5 g6 where
    gs: "gs = [g0, g1, g2, g3, g4, g5, g6]"
    and c: "g0 = ''(property''" "spaces g1" "g2 = dquote # name @ [dquote]" "spaces g3"
      "g4 = [dquote]" "dquote \<notin> set g5" "g6 = [dquote]"
    unfolding named_pattern_def by (auto simp: list_all2_Cons1 spaces_def)
  from rmatch_sound[OF assms] gs c have "t = ''(property'' @ g1 @ (dquote # name @ [dquote]) @ g3 @ dquote # g5 @ dquote # r"
    by simp
  with c show ?thesis by blast
qed

subsection \<open>A match that starts before inserted text does not reach into it\<close>

text \<open>
  The inserted text starts with a line break and white space, followed by a character
  \<open>c\<close> that is neither white space nor a quote.
\<close>

lemma pin_cross:
  assumes m: "rmatch pin_pattern (a @ newline # u @ c # x) = Some (gs, r)"
    and a: "a \<noteq> []" and u: "blank u" and c: "\<not> is_space c" "c \<noteq> dquote"
    and x: "take 4 (c # x) \<noteq> ''(pin''"
  shows "rmatch pin_pattern (a @ y) \<noteq> None"
proof -
  from rmatch_pin_elim[OF m] obtain g1 g3 where
    g: "blank g1" "spaces g3"
    and t: "a @ newline # u @ c # x = newline # g1 @ ''(pin'' @ g3 @ dquote # r"
    by blast
  from a t obtain a1 where a1: "a = newline # a1"
    and t1: "a1 @ newline # u @ c # x = g1 @ CHR ''('' # ''pin'' @ g3 @ dquote # r"
    by (cases a) auto
  from blank_split[of a1] show ?thesis
  proof
    assume "blank a1"
    then have "blank (a1 @ newline # u)"
      using u by simp
    from ws_prefix_unique[OF this g(1) c(1) not_space_paren(1), of x "''pin'' @ g3 @ dquote # r"] t1
    have "c = CHR ''(''" "x = ''pin'' @ g3 @ dquote # r"
      by simp_all
    with x show ?thesis by simp
  next
    assume "\<exists>v d z. a1 = v @ d # z \<and> blank v \<and> \<not> is_space d"
    then obtain v d z where v: "a1 = v @ d # z" "blank v" "\<not> is_space d"
      by blast
    from ws_prefix_unique[OF v(2) g(1) v(3) not_space_paren(1), of "z @ newline # u @ c # x" "''pin'' @ g3 @ dquote # r"] t1 v(1)
    have e: "v = g1" "d = CHR ''(''" and t2: "z @ newline # u @ c # x = ''pin'' @ g3 @ dquote # r"
      by simp_all
    from literal_at_seam[OF t2] consider
      (inside) z' where "z = ''pin'' @ z'" "g3 @ dquote # r = z' @ newline # u @ c # x"
      | (seam) l1 l2 where "l2 \<noteq> []" "''pin'' = l1 @ l2" "newline # u @ c # x = l2 @ g3 @ dquote # r"
      by blast
    then show ?thesis
    proof cases
      case seam
      then have "hd l2 = newline" "hd l2 \<in> set ''pin''"
        by (cases l2; simp; metis list.set_intros(1) UnCI set_append)+
      then show ?thesis by (simp add: newline_def)
    next
      case inside
      from g(2) have g3: "blank g3" "g3 \<noteq> []"
        by (simp_all add: spaces_blank)
      from blank_split[of z'] show ?thesis
      proof
        assume "blank z'"
        then have "blank (z' @ newline # u)"
          using u by simp
        from ws_prefix_unique[OF this g3(1) c(1) not_space_dquote, of x r] inside(2)
        have "c = dquote" by simp
        with c(2) show ?thesis by simp
      next
        assume "\<exists>v d z. z' = v @ d # z \<and> blank v \<and> \<not> is_space d"
        then obtain v3 d3 z3 where v3: "z' = v3 @ d3 # z3" "blank v3" "\<not> is_space d3"
          by blast
        from ws_prefix_unique[OF v3(2) g3(1) v3(3) not_space_dquote, of "z3 @ newline # u @ c # x" r] inside(2) v3(1)
        have "v3 = g3" "d3 = dquote"
          by simp_all
        then have "a @ y = newline # g1 @ ''(pin'' @ g3 @ dquote # (z3 @ y)"
          using a1 v(1) e inside(1) v3(1) by simp
        with rmatch_pin_intro[OF g(1,2), of "z3 @ y"] show ?thesis
          by simp
      qed
    qed
  qed
qed


lemma seam_newline:
  assumes "l2 \<noteq> []" and "l = l1 @ l2" and "newline # x = l2 @ t"
  shows "newline \<in> set l"
  using assms by (cases l2) auto

lemma named_cross:
  assumes m: "rmatch (named_pattern name) (a @ newline # u @ c # x) = Some (gs, r)"
    and u: "blank u" and c: "\<not> is_space c" "c \<noteq> dquote"
    and n: "newline \<notin> set name" and y: "dquote \<in> set y"
  shows "rmatch (named_pattern name) (a @ y) \<noteq> None"
proof -
  from rmatch_named_elim[OF m] obtain g1 g3 g5 where
    g: "spaces g1" "spaces g3" "dquote \<notin> set g5"
    and t: "a @ newline # u @ c # x =
        ''(property'' @ g1 @ (dquote # name @ [dquote]) @ g3 @ dquote # g5 @ dquote # r"
    by blast
  have b: "blank g1" "blank g3"
    using g by (simp_all add: spaces_blank)
  from literal_at_seam[OF t] consider
    (inside) a1 where "a = ''(property'' @ a1"
      "g1 @ (dquote # name @ [dquote]) @ g3 @ dquote # g5 @ dquote # r = a1 @ newline # u @ c # x"
    | (seam) l1 l2 where "l2 \<noteq> []" "''(property'' = l1 @ l2"
      "newline # u @ c # x = l2 @ g1 @ (dquote # name @ [dquote]) @ g3 @ dquote # g5 @ dquote # r"
    by blast
  then show ?thesis
  proof cases
    case seam
    from seam_newline[OF seam] show ?thesis
      by (simp add: newline_def)
  next
    case inside
    from blank_split[of a1] show ?thesis
    proof
      assume "blank a1"
      then have "blank (a1 @ newline # u)"
        using u by simp
      from ws_prefix_unique[OF this b(1) c(1) not_space_dquote, of x
          "name @ [dquote] @ g3 @ dquote # g5 @ dquote # r"] inside(2)
      have "c = dquote" by simp
      with c(2) show ?thesis by simp
    next
      assume "\<exists>v d z. a1 = v @ d # z \<and> blank v \<and> \<not> is_space d"
      then obtain v d z where v: "a1 = v @ d # z" "blank v" "\<not> is_space d"
        by blast
      from ws_prefix_unique[OF v(2) b(1) v(3) not_space_dquote, of "z @ newline # u @ c # x"
          "name @ [dquote] @ g3 @ dquote # g5 @ dquote # r"] inside(2) v(1)
      have e: "v = g1" "d = dquote"
        and t2: "z @ newline # u @ c # x = (name @ [dquote]) @ g3 @ dquote # g5 @ dquote # r"
        by simp_all
      from literal_at_seam[OF t2] consider
        (inside2) z2 where "z = (name @ [dquote]) @ z2"
          "g3 @ dquote # g5 @ dquote # r = z2 @ newline # u @ c # x"
        | (seam2) l1 l2 where "l2 \<noteq> []" "name @ [dquote] = l1 @ l2"
          "newline # u @ c # x = l2 @ g3 @ dquote # g5 @ dquote # r"
        by blast
      then show ?thesis
      proof cases
        case seam2
        from seam_newline[OF seam2] n show ?thesis
          by (simp add: newline_def dquote_def)
      next
        case inside2
        from blank_split[of z2] show ?thesis
        proof
          assume "blank z2"
          then have "blank (z2 @ newline # u)"
            using u by simp
          from ws_prefix_unique[OF this b(2) c(1) not_space_dquote, of x "g5 @ dquote # r"] inside2(2)
          have "c = dquote" by simp
          with c(2) show ?thesis by simp
        next
          assume "\<exists>v d z. z2 = v @ d # z \<and> blank v \<and> \<not> is_space d"
          then obtain v3 d3 z3 where v3: "z2 = v3 @ d3 # z3" "blank v3" "\<not> is_space d3"
            by blast
          from ws_prefix_unique[OF v3(2) b(2) v3(3) not_space_dquote, of "z3 @ newline # u @ c # x"
              "g5 @ dquote # r"] inside2(2) v3(1)
          have e3: "v3 = g3" "d3 = dquote"
            by simp_all
          let ?h = "''(property'' @ g1 @ [dquote] @ name @ [dquote] @ g3 @ [dquote]"
          have h: "is_header name ?h"
            unfolding is_header_def using g(1,2) by blast
          have ay: "a @ y = ?h @ z3 @ y"
            using inside(1) v(1) e inside2(1) v3(1) e3 by simp
          from y have "dquote \<in> set (z3 @ y)"
            by simp
          then obtain val rest where "z3 @ y = val @ dquote # rest" "dquote \<notin> set val"
            by (metis split_list_first)
          with rmatch_is_header[OF h, of val rest "[]"] ay show ?thesis
            by auto
        qed
      qed
    qed
  qed
qed


subsection \<open>No match starts inside a synthesized node\<close>

text \<open>No match of the pattern starts inside \<open>x\<close> when \<open>z\<close> follows it.\<close>

definition dead :: "regex \<Rightarrow> string \<Rightarrow> string \<Rightarrow> bool" where
  "dead p x z \<longleftrightarrow> (\<forall>j<length x. rmatch p (drop j x @ z) = None)"

lemma dead_append: "dead p x (y @ z) \<Longrightarrow> dead p y z \<Longrightarrow> dead p (x @ y) z"
  unfolding dead_def
proof (intro allI impI)
  fix j
  assume x: "\<forall>j<length x. rmatch p (drop j x @ y @ z) = None"
    and y: "\<forall>j<length y. rmatch p (drop j y @ z) = None"
    and j: "j < length (x @ y)"
  show "rmatch p (drop j (x @ y) @ z) = None"
  proof (cases "j < length x")
    case True
    with x show ?thesis by simp
  next
    case False
    with j y show ?thesis by simp
  qed
qed

lemma dead_Cons: "rmatch p (c # x @ z) = None \<Longrightarrow> dead p x z \<Longrightarrow> dead p (c # x) z"
  unfolding dead_def
proof (intro allI impI)
  fix j
  assume "rmatch p (c # x @ z) = None" "\<forall>j<length x. rmatch p (drop j x @ z) = None"
    "j < length (c # x)"
  then show "rmatch p (drop j (c # x) @ z) = None"
    by (cases j) auto
qed

lemma dead_first_char:
  assumes "c \<notin> set x"
  shows "dead (Str (c # l) # p) x z"
  unfolding dead_def
proof (intro allI impI)
  fix j
  assume "j < length x"
  then obtain d t where d: "drop j x = d # t"
    by (cases "drop j x") auto
  then have "d \<in> set x"
    by (metis in_set_dropD list.set_intros(1))
  with assms have "d \<noteq> c" by blast
  then show "rmatch (Str (c # l) # p) (drop j x @ z) = None"
    by (simp add: d)
qed

lemma dead_pin_blank:
  assumes "blank w" and "\<not> is_space c" and "take 4 (c # t) \<noteq> ''(pin''"
  shows "dead pin_pattern w (c # t)"
  unfolding dead_def
proof (intro allI impI)
  fix j
  assume j: "j < length w"
  show "rmatch pin_pattern (drop j w @ c # t) = None"
  proof (rule ccontr)
    assume "rmatch pin_pattern (drop j w @ c # t) \<noteq> None"
    then obtain gs r where "rmatch pin_pattern (drop j w @ c # t) = Some (gs, r)"
      by auto
    from rmatch_pin_elim[OF this] obtain g1 g3 where
      g: "blank g1" and e: "drop j w @ c # t = newline # g1 @ CHR ''('' # ''pin'' @ g3 @ dquote # r"
      by auto
    from j obtain d b where d: "drop j w = d # b"
      by (cases "drop j w") auto
    have "blank (drop j w)"
      using assms(1) by (auto simp: blank_def dest: in_set_dropD)
    then have b: "blank b"
      using d by simp
    from e d have "b @ c # t = g1 @ CHR ''('' # ''pin'' @ g3 @ dquote # r"
      by simp
    from ws_prefix_unique[OF b g assms(2) not_space_paren(1) this]
    have "c # t = CHR ''('' # ''pin'' @ g3 @ dquote # r"
      by simp
    with assms(3) show False by simp
  qed
qed

lemma same_until_quote:
  assumes "dquote \<notin> set a" and "dquote \<notin> set b" and "a @ dquote # s = b @ dquote # t"
  shows "a = b"
proof -
  have "takeWhile (\<lambda>x. x \<noteq> dquote) (a @ dquote # s) = a"
    "takeWhile (\<lambda>x. x \<noteq> dquote) (b @ dquote # t) = b"
    using assms(1,2) by (auto intro!: takeWhile_run)
  with assms(3) show ?thesis by simp
qed

lemma named_other:
  assumes "a \<noteq> b" and "dquote \<notin> set a" and "dquote \<notin> set b"
  shows "rmatch (named_pattern b) (''(property '' @ [dquote] @ a @ [dquote] @ t) = None"
proof (rule ccontr)
  assume "rmatch (named_pattern b) (''(property '' @ [dquote] @ a @ [dquote] @ t) \<noteq> None"
  then obtain gs r where "rmatch (named_pattern b) (''(property '' @ [dquote] @ a @ [dquote] @ t) = Some (gs, r)"
    by auto
  from rmatch_named_elim[OF this] obtain g1 g3 g5 where
    g: "spaces g1"
    and e: "''(property '' @ [dquote] @ a @ [dquote] @ t =
        ''(property'' @ g1 @ (dquote # b @ [dquote]) @ g3 @ dquote # g5 @ dquote # r"
    by blast
  have b: "blank g1" "blank '' ''"
    using g by (simp_all add: spaces_blank)
  from e have "'' '' @ dquote # (a @ dquote # t) = g1 @ dquote # (b @ dquote # g3 @ dquote # g5 @ dquote # r)"
    by simp
  from ws_prefix_unique[OF b(2,1) not_space_dquote not_space_dquote this]
  have "a @ dquote # t = b @ dquote # g3 @ dquote # g5 @ dquote # r"
    by simp
  from same_until_quote[OF assms(2,3) this] assms(1) show False
    by simp
qed

lemma blank_no_paren: "blank w \<Longrightarrow> CHR ''('' \<notin> set w"
  by (auto simp: blank_def)

lemma blank_no_quote: "blank w \<Longrightarrow> dquote \<notin> set w"
  by (auto simp: blank_def)


text \<open>Plain text: no opening parenthesis, no double quote, no line break.\<close>

definition plain :: "string \<Rightarrow> bool" where
  "plain x \<longleftrightarrow> CHR ''('' \<notin> set x \<and> dquote \<notin> set x \<and> newline \<notin> set x"

lemma dead_pin_pieces:
  assumes "blank w1" and "blank w2" and "blank w3"
    and "\<not> is_space c1" and "\<not> is_space c2" and "\<not> is_space c3"
    and "\<And>t. take 4 (c1 # k1 @ t) \<noteq> ''(pin''"
    and "\<And>t. take 4 (c2 # k2 @ t) \<noteq> ''(pin''"
    and "\<And>t. take 4 (c3 # k3 @ t) \<noteq> ''(pin''"
    and "newline \<notin> set (c1 # k1)" and "newline \<notin> set (c2 # k2)" and "newline \<notin> set (c3 # k3)"
  shows "dead pin_pattern (w1 @ (c1 # k1) @ w2 @ (c2 # k2) @ w3 @ (c3 # k3)) z"
proof -
  have d6: "dead pin_pattern (c3 # k3) z"
    unfolding pin_pattern_def using assms(12) by (rule dead_first_char)
  have d5: "dead pin_pattern w3 ((c3 # k3) @ z)"
    using dead_pin_blank[OF assms(3,6,9), of z] by simp
  have d4: "dead pin_pattern (c2 # k2) ((w3 @ (c3 # k3)) @ z)"
    unfolding pin_pattern_def using assms(11) by (rule dead_first_char)
  have d3: "dead pin_pattern w2 (((c2 # k2) @ w3 @ (c3 # k3)) @ z)"
    using dead_pin_blank[OF assms(2,5,8), of "w3 @ (c3 # k3) @ z"] by simp
  have d2: "dead pin_pattern (c1 # k1) ((w2 @ (c2 # k2) @ w3 @ (c3 # k3)) @ z)"
    unfolding pin_pattern_def using assms(10) by (rule dead_first_char)
  have d1: "dead pin_pattern w1 (((c1 # k1) @ w2 @ (c2 # k2) @ w3 @ (c3 # k3)) @ z)"
    using dead_pin_blank[OF assms(1,4,7), of "w2 @ (c2 # k2) @ w3 @ (c3 # k3) @ z"] by simp
  note e5 = dead_append[OF d5 d6]
  note e4 = dead_append[OF d4 e5]
  note e3 = dead_append[OF d3 e4]
  note e2 = dead_append[OF d2 e3]
  show ?thesis
    by (rule dead_append[OF d1 e2])
qed

lemma node_dead_pin:
  assumes "blank ind" and "plain a" and "plain v" and "plain c"
  shows "dead pin_pattern (new_prop ind a v c) z"
proof -
  let ?k1 = "''property '' @ [dquote] @ a @ [dquote] @ '' '' @ [dquote] @ v @ [dquote] @ '' (at '' @ c @ '')''"
  let ?k2 = "''effects (font (size 1.27 1.27)) hide)''"
  have n: "newline \<notin> set (CHR ''('' # ?k1)" "newline \<notin> set (CHR ''('' # ?k2)"
      "newline \<notin> set (CHR '')'' # [])"
    using assms(2-4) by (simp_all add: plain_def newline_def dquote_def)
  have b: "blank (newline # ind)" "blank (newline # ind @ [tab])"
    using assms(1) by simp_all
  have "dead pin_pattern ((newline # ind) @ (CHR ''('' # ?k1) @ (newline # ind @ [tab]) @
      (CHR ''('' # ?k2) @ (newline # ind) @ (CHR '')'' # [])) z"
    using b(1,2,1) not_space_paren(1,1,2) _ _ _ n
    by (rule dead_pin_pieces) simp_all
  moreover have "new_prop ind a v c = (newline # ind) @ (CHR ''('' # ?k1) @ (newline # ind @ [tab]) @
      (CHR ''('' # ?k2) @ (newline # ind) @ (CHR '')'' # [])"
    by (simp add: new_prop_def)
  ultimately show ?thesis by simp
qed

lemma named_not_property:
  "d \<noteq> CHR ''p'' \<Longrightarrow> rmatch (named_pattern b) (CHR ''('' # d # t) = None"
  by (simp add: named_pattern_def)

lemma dead_named_piece:
  assumes "CHR ''('' \<notin> set t" and "rmatch (named_pattern b) (CHR ''('' # t @ z) = None"
  shows "dead (named_pattern b) (CHR ''('' # t) z"
  using assms(2)
proof (rule dead_Cons)
  show "dead (named_pattern b) t z"
    unfolding named_pattern_def using assms(1) by (rule dead_first_char)
qed

lemma dead_named_pieces:
  assumes "CHR ''('' \<notin> set w"
    and "CHR ''('' \<notin> set t1" and "CHR ''('' \<notin> set t2" and "CHR ''('' \<notin> set t3"
    and "CHR ''('' \<notin> set t4" and "CHR ''('' \<notin> set t5"
    and "\<And>z. rmatch (named_pattern b) (CHR ''('' # t1 @ z) = None"
    and "\<And>z. rmatch (named_pattern b) (CHR ''('' # t2 @ z) = None"
    and "\<And>z. rmatch (named_pattern b) (CHR ''('' # t3 @ z) = None"
    and "\<And>z. rmatch (named_pattern b) (CHR ''('' # t4 @ z) = None"
    and "\<And>z. rmatch (named_pattern b) (CHR ''('' # t5 @ z) = None"
  shows "dead (named_pattern b)
    (w @ (CHR ''('' # t1) @ (CHR ''('' # t2) @ (CHR ''('' # t3) @ (CHR ''('' # t4) @ (CHR ''('' # t5)) z"
proof -
  have d0: "\<And>z. dead (named_pattern b) w z"
    unfolding named_pattern_def using assms(1) by (rule dead_first_char)
  note d = dead_named_piece[OF assms(2) assms(7)] dead_named_piece[OF assms(3) assms(8)]
    dead_named_piece[OF assms(4) assms(9)] dead_named_piece[OF assms(5) assms(10)]
    dead_named_piece[OF assms(6) assms(11)]
  note e4 = dead_append[OF d(4) d(5)]
  note e3 = dead_append[OF d(3) e4]
  note e2 = dead_append[OF d(2) e3]
  note e1 = dead_append[OF d(1) e2]
  show ?thesis
    by (rule dead_append[OF d0 e1])
qed

lemma node_dead_named:
  assumes "blank ind" and "plain a" and "plain v" and "plain c" and "plain b" and "a \<noteq> b"
  shows "dead (named_pattern b) (new_prop ind a v c) z"
proof -
  let ?t1 = "''property '' @ [dquote] @ a @ [dquote] @ '' '' @ [dquote] @ v @ [dquote] @ '' ''"
  let ?t2 = "''at '' @ c @ '')'' @ newline # ind @ [tab]"
  let ?t3 = "''effects ''"
  let ?t4 = "''font ''"
  let ?t5 = "''size 1.27 1.27)) hide)'' @ newline # ind @ '')''"
  have ni: "CHR ''('' \<notin> set ind"
    using assms(1) by (rule blank_no_paren)
  have n: "CHR ''('' \<notin> set (newline # ind)" "CHR ''('' \<notin> set ?t1" "CHR ''('' \<notin> set ?t2"
    "CHR ''('' \<notin> set ?t3" "CHR ''('' \<notin> set ?t4" "CHR ''('' \<notin> set ?t5"
    using assms(2-4) ni by (simp_all add: plain_def newline_def dquote_def tab_def)
  have m1: "rmatch (named_pattern b) (CHR ''('' # ?t1 @ z) = None" for z
    using named_other[OF assms(6), of "'' '' @ [dquote] @ v @ [dquote] @ '' '' @ z"] assms(2,5)
    by (simp add: plain_def)
  have m2: "rmatch (named_pattern b) (CHR ''('' # ?t2 @ z) = None" for z
    by (simp add: named_not_property)
  have m3: "rmatch (named_pattern b) (CHR ''('' # ?t3 @ z) = None" for z
    by (simp add: named_not_property)
  have m4: "rmatch (named_pattern b) (CHR ''('' # ?t4 @ z) = None" for z
    by (simp add: named_not_property)
  have m5: "rmatch (named_pattern b) (CHR ''('' # ?t5 @ z) = None" for z
    by (simp add: named_not_property)
  have "dead (named_pattern b)
    ((newline # ind) @ (CHR ''('' # ?t1) @ (CHR ''('' # ?t2) @ (CHR ''('' # ?t3) @ (CHR ''('' # ?t4) @ (CHR ''('' # ?t5)) z"
    using n m1 m2 m3 m4 m5 by (rule dead_named_pieces)
  moreover have "new_prop ind a v c =
    (newline # ind) @ (CHR ''('' # ?t1) @ (CHR ''('' # ?t2) @ (CHR ''('' # ?t3) @ (CHR ''('' # ?t4) @ (CHR ''('' # ?t5)"
    by (simp add: new_prop_def)
  ultimately show ?thesis by simp
qed


subsection \<open>Two attributes synthesized one after the other\<close>

lemma slice_nat:
  "p \<le> length s \<Longrightarrow> slice_to (int p) s = take p s \<and> slice_from (int p) s = drop p s"
  by (simp add: slice_to_def slice_from_def clip_index_def)

lemma not_None_pair: "x \<noteq> None \<Longrightarrow> \<exists>a b. x = Some (a, b)"
  by (cases x) auto

lemma new_prop_start:
  "\<exists>y. new_prop ind a v c = newline # ind @ CHR ''('' # CHR ''p'' # CHR ''r'' # CHR ''o'' # y"
  by (simp add: new_prop_def)

lemma insert_then_insert_aux:
  assumes pa: "plain a" "plain va" and pb: "plain b" and pc: "plain (at_coords_of raw)"
    and ab: "a \<noteq> b"
    and na: "rsearch (named_pattern a) raw = None"
    and nb: "rsearch (named_pattern b) raw = None"
    and pin: "rsearch pin_pattern raw = Some (p, gs, rest)"
    and i: "ind = gs ! 1"
  shows "update_property raw a va = take p raw @ new_prop (ind) a va (at_coords_of raw) @ drop p raw"
    and "update_property (update_property raw a va) b vb =
         take p raw @ new_prop (ind) a va (at_coords_of raw) @
         new_prop (ind) b vb (at_coords_of (update_property raw a va)) @ drop p raw"
proof -
  let ?P = "take p raw" and ?S = "drop p raw"
  let ?N = "new_prop (ind) a va (at_coords_of raw)"
  let ?new = "?P @ ?N @ ?S"
  from rsearch_sound[OF pin] have p: "p \<le> length raw" and m: "rmatch pin_pattern ?S = Some (gs, rest)"
    by simp_all
  from rmatch_pin_elim[OF m] obtain g1 g3 where
    g: "blank g1" "spaces g3" "gs = [[newline], g1, ''(pin'', g3, [dquote]]"
    and S: "?S = newline # g1 @ ''(pin'' @ g3 @ dquote # rest"
    by blast
  have ind: "ind = g1"
    by (simp add: i g(3))
  have lP: "length ?P = p"
    using p by simp
  have ip: "insertion_point raw = (int p, ind)"
    using pin by (simp add: insertion_point_def i)
  show first: "update_property raw a va = ?new"
    using update_property_absent[OF na, of va] slice_nat[OF p] by (simp add: ip)
  from new_prop_start[of ind a va "at_coords_of raw"] obtain y where
    y: "?N = newline # ind @ CHR ''('' # CHR ''p'' # CHR ''r'' # CHR ''o'' # y"
    by blast
  define x where "x = CHR ''p'' # CHR ''r'' # CHR ''o'' # y"
  have N: "?N = newline # g1 @ CHR ''('' # x" and x: "take 4 (CHR ''('' # x @ ?S) \<noteq> ''(pin''"
    unfolding y x_def by (simp_all add: ind)
  have NS: "?N @ ?S = newline # g1 @ CHR ''('' # (x @ ?S)"
    by (simp add: N)
  have q: "dquote \<in> set ?S"
    by (simp add: S)
  have before: "rmatch pin_pattern (drop i ?new) = None" if "i < p + length ?N" for i
  proof (cases "i < p")
    case True
    then have d: "drop i ?new = drop i ?P @ ?N @ ?S" and ne: "drop i ?P \<noteq> []"
      using lP by simp_all
    have dN: "drop i ?new = drop i ?P @ newline # g1 @ CHR ''('' # (x @ ?S)"
      unfolding d by (simp only: NS)
    show ?thesis
    proof (rule ccontr)
      assume "rmatch pin_pattern (drop i ?new) \<noteq> None"
      from not_None_pair[OF this] obtain gs' r' where
        e: "rmatch pin_pattern (drop i ?new) = Some (gs', r')"
        by blast
      from pin_cross[OF e[unfolded dN] ne g(1) not_space_paren(1) _ x, of ?S]
      have "rmatch pin_pattern (drop i ?P @ ?S) \<noteq> None"
        by (simp add: dquote_def)
      moreover have "drop i ?P @ ?S = drop i raw"
        using True p by (metis append_take_drop_id drop_append lP less_imp_le_nat diff_is_0_eq drop_0 order_less_imp_le)
      ultimately show False
        using rsearch_Some_before[OF pin True] by simp
    qed
  next
    case False
    then have "drop i ?new = drop (i - p) ?N @ ?S"
      using lP that by simp
    moreover have "i - p < length ?N"
      using False that by simp
    ultimately show ?thesis
      using node_dead_pin[OF g(1) pa pc, of ?S] unfolding ind dead_def by simp
  qed
  have at: "rmatch pin_pattern (drop (p + length ?N) ?new) = Some (gs, rest)"
    using m lP by simp
  have len: "p + length ?N \<le> length ?new"
    using p by (simp add: min_def)
  have pin': "rsearch pin_pattern ?new = Some (p + length ?N, gs, rest)"
    using before len at by (rule rsearch_SomeI)
  have nb': "rsearch (named_pattern b) ?new = None"
  proof (rule rsearch_NoneI)
    fix i
    assume "i \<le> length ?new"
    consider (P) "i < p" | (N) "p \<le> i" "i < p + length ?N" | (S) "p + length ?N \<le> i"
      by linarith
    then show "rmatch (named_pattern b) (drop i ?new) = None"
    proof cases
      case P
      then have d: "drop i ?new = drop i ?P @ ?N @ ?S"
        using lP by simp
      have dN: "drop i ?new = drop i ?P @ newline # g1 @ CHR ''('' # (x @ ?S)"
        unfolding d by (simp only: NS)
      show ?thesis
      proof (rule ccontr)
        assume "rmatch (named_pattern b) (drop i ?new) \<noteq> None"
        from not_None_pair[OF this] obtain gs' r' where
          e: "rmatch (named_pattern b) (drop i ?new) = Some (gs', r')"
          by blast
        from named_cross[OF e[unfolded dN] g(1) not_space_paren(1) _ _ q] pb
        have "rmatch (named_pattern b) (drop i ?P @ ?S) \<noteq> None"
          by (simp add: dquote_def plain_def)
        moreover have "drop i ?P @ ?S = drop i raw"
          using P p by (metis append_take_drop_id drop_append lP less_imp_le_nat diff_is_0_eq drop_0)
        ultimately show False
          using rsearch_None_all[OF nb, of i] by simp
      qed
    next
      case N
      then have "drop i ?new = drop (i - p) ?N @ ?S" "i - p < length ?N"
        using lP by simp_all
      then show ?thesis
        using node_dead_named[OF g(1) pa pc pb ab, of ?S] unfolding ind dead_def by simp
    next
      case S
      then have "drop i ?new = drop (i - length ?N) raw"
        using lP p by (simp add: drop_append)
      then show ?thesis
        using rsearch_None_all[OF nb] by simp
    qed
  qed
  have ip': "insertion_point ?new = (int (p + length ?N), ind)"
    using pin' by (simp add: insertion_point_def i)
  have "update_property ?new b vb =
      take (p + length ?N) ?new @ new_prop (ind) b vb (at_coords_of ?new) @ drop (p + length ?N) ?new"
    using update_property_absent[OF nb', of vb] slice_nat[OF len] by (simp add: ip')
  moreover have "take (p + length ?N) ?new = ?P @ ?N" "drop (p + length ?N) ?new = ?S"
    using lP by simp_all
  ultimately show "update_property (update_property raw a va) b vb =
         ?P @ ?N @ new_prop (ind) b vb (at_coords_of (update_property raw a va)) @ ?S"
    unfolding first by simp
qed


lemmas insert_then_insert = insert_then_insert_aux[OF _ _ _ _ _ _ _ _ refl]


lemma new_prop_name:
  "\<exists>t. new_prop ind a v c = (newline # ind @ ''(property '' @ [dquote]) @ a @ dquote # t"
  by (simp add: new_prop_def)





section \<open>Upserting the same value twice (C8)\<close>

text \<open>Leading positions where no match starts are skipped by \<open>re.finditer\<close>.\<close>

lemma rfinditer_skip:
  "(\<And>i. i < k \<Longrightarrow> rmatch p (drop i s) = None) \<Longrightarrow> k \<le> length s \<Longrightarrow>
   rfinditer p s = rfinditer p (drop k s)"
proof (induction k arbitrary: s)
  case 0
  then show ?case by simp
next
  case (Suc k)
  from Suc.prems(2) obtain x xs where s: "s = x # xs"
    by (cases s) auto
  have "rmatch p (x # xs) = None"
    using Suc.prems(1)[of 0] s by simp
  then have "rfinditer p s = rfinditer p xs"
    unfolding s by (rule rfinditer_None)
  moreover have "rfinditer p xs = rfinditer p (drop k xs)"
  proof (rule Suc.IH)
    show "rmatch p (drop i xs) = None" if "i < k" for i
      using Suc.prems(1)[of "Suc i"] that s by simp
    show "k \<le> length xs"
      using Suc.prems(2) s by simp
  qed
  ultimately show ?case
    by (simp add: s)
qed

lemma node_tail_dead:
  assumes "blank ind" and "plain c"
  shows "dead (named_pattern b)
    ('' (at '' @ c @ '')'' @ [newline] @ ind @ [tab] @
     ''(effects (font (size 1.27 1.27)) hide)'' @ [newline] @ ind @ '')'') z"
proof -
  let ?t2 = "''at '' @ c @ '')'' @ newline # ind @ [tab]"
  let ?t3 = "''effects ''"
  let ?t4 = "''font ''"
  let ?t5 = "''size 1.27 1.27)) hide)'' @ newline # ind @ '')''"
  have ni: "CHR ''('' \<notin> set ind"
    using assms(1) by (rule blank_no_paren)
  have n: "CHR ''('' \<notin> set '' ''" "CHR ''('' \<notin> set ?t2"
    "CHR ''('' \<notin> set ?t3" "CHR ''('' \<notin> set ?t4" "CHR ''('' \<notin> set ?t5"
    using assms(2) ni by (simp_all add: plain_def newline_def tab_def)
  have m2: "rmatch (named_pattern b) (CHR ''('' # ?t2 @ z) = None" for z
    by (simp add: named_not_property)
  have m3: "rmatch (named_pattern b) (CHR ''('' # ?t3 @ z) = None" for z
    by (simp add: named_not_property)
  have m4: "rmatch (named_pattern b) (CHR ''('' # ?t4 @ z) = None" for z
    by (simp add: named_not_property)
  have m5: "rmatch (named_pattern b) (CHR ''('' # ?t5 @ z) = None" for z
    by (simp add: named_not_property)
  have d0: "\<And>z. dead (named_pattern b) '' '' z"
    unfolding named_pattern_def using n(1) by (rule dead_first_char)
  note d = dead_named_piece[OF n(2) m2] dead_named_piece[OF n(3) m3]
    dead_named_piece[OF n(4) m4] dead_named_piece[OF n(5) m5]
  note e3 = dead_append[OF d(3) d(4)]
  note e2 = dead_append[OF d(2) e3]
  note e1 = dead_append[OF d(1) e2]
  have "dead (named_pattern b)
    ('' '' @ (CHR ''('' # ?t2) @ (CHR ''('' # ?t3) @ (CHR ''('' # ?t4) @ (CHR ''('' # ?t5)) z"
    by (rule dead_append[OF d0 e1])
  then show ?thesis by simp
qed

lemma node_values_inserted:
  assumes pa: "plain a" and pv: "dquote \<notin> set va" and pc: "plain (at_coords_of raw)"
    and na: "rsearch (named_pattern a) raw = None"
    and pin: "rsearch pin_pattern raw = Some (p, gs, rest)"
  shows "node_values a (update_property raw a va) = [va]"
proof -
  let ?P = "take p raw" and ?S = "drop p raw"
  define ind where "ind = gs ! 1"
  let ?c = "at_coords_of raw"
  let ?N = "new_prop ind a va ?c"
  let ?new = "?P @ ?N @ ?S"
  let ?h = "''(property'' @ '' '' @ [dquote] @ a @ [dquote] @ '' '' @ [dquote]"
  define t where "t = '' (at '' @ ?c @ '')'' @ [newline] @ ind @ [tab] @
     ''(effects (font (size 1.27 1.27)) hide)'' @ [newline] @ ind @ '')''"
  from rsearch_sound[OF pin] have p: "p \<le> length raw" and m: "rmatch pin_pattern ?S = Some (gs, rest)"
    by simp_all
  from rmatch_pin_elim[OF m] obtain g1 g3 where
    g: "blank g1" "spaces g3" "gs = [[newline], g1, ''(pin'', g3, [dquote]]"
    and S: "?S = newline # g1 @ ''(pin'' @ g3 @ dquote # rest"
    by blast
  have ind: "ind = g1"
    by (simp add: ind_def g(3))
  have bl: "blank ind"
    using g(1) ind by simp
  have lP: "length ?P = p"
    using p by simp
  have ip: "insertion_point raw = (int p, ind)"
    using pin by (simp add: insertion_point_def ind_def)
  have first: "update_property raw a va = ?new"
    using update_property_absent[OF na, of va] slice_nat[OF p] by (simp add: ip)
  have h: "is_header a ?h"
    unfolding is_header_def
    by (intro exI[of _ "'' ''"] conjI) (simp_all add: spaces_def is_space_def)
  have N: "?N = (newline # ind) @ ?h @ va @ dquote # t"
    by (simp add: new_prop_def t_def)
  from new_prop_start[of ind a va ?c] obtain y where
    y: "?N = newline # ind @ CHR ''('' # CHR ''p'' # CHR ''r'' # CHR ''o'' # y"
    by blast
  have NS: "?N @ ?S = newline # ind @ CHR ''('' # ((CHR ''p'' # CHR ''r'' # CHR ''o'' # y) @ ?S)"
    by (simp add: y)
  have q: "dquote \<in> set ?S"
    by (simp add: S)
  let ?k = "p + length (newline # ind)"
  have before: "rmatch (named_pattern a) (drop i ?new) = None" if "i < ?k" for i
  proof (cases "i < p")
    case True
    then have d: "drop i ?new = drop i ?P @ ?N @ ?S"
      using lP by simp
    have dN: "drop i ?new = drop i ?P @ newline # ind @ CHR ''('' # ((CHR ''p'' # CHR ''r'' # CHR ''o'' # y) @ ?S)"
      unfolding d by (simp only: NS)
    show ?thesis
    proof (rule ccontr)
      assume "rmatch (named_pattern a) (drop i ?new) \<noteq> None"
      from not_None_pair[OF this] obtain gs' r' where
        e: "rmatch (named_pattern a) (drop i ?new) = Some (gs', r')"
        by blast
      from named_cross[OF e[unfolded dN] bl not_space_paren(1) _ _ q] pa
      have "rmatch (named_pattern a) (drop i ?P @ ?S) \<noteq> None"
        by (simp add: dquote_def plain_def)
      moreover have "drop i ?P @ ?S = drop i raw"
        using True p by (metis append_take_drop_id drop_append lP less_imp_le_nat diff_is_0_eq drop_0)
      ultimately show False
        using rsearch_None_all[OF na, of i] by simp
    qed
  next
    case False
    define W where "W = newline # ind"
    define T where "T = ?h @ va @ dquote # t @ ?S"
    have "CHR ''('' \<notin> set W"
      using blank_no_paren[OF bl] by (simp add: newline_def W_def)
    then have dd: "dead (named_pattern a) W T"
      unfolding named_pattern_def by (rule dead_first_char)
    have e: "?N @ ?S = W @ T"
      unfolding N W_def T_def by simp
    have lt: "i - p < length W"
      using False that by (simp add: W_def)
    have "drop i ?new = drop (i - p) (W @ T)"
      using False lP e by simp
    then have "drop i ?new = drop (i - p) W @ T"
      using lt by simp
    with dd lt show ?thesis
      unfolding dead_def by simp
  qed
  have len: "?k \<le> length ?new"
    using p by (simp add: N min_def)
  have dk: "drop ?k ?new = ?h @ va @ dquote # (t @ ?S)"
    using lP by (simp add: N)
  from rmatch_is_header[OF h pv, of "t @ ?S" va] obtain gs' where
    at: "rmatch (named_pattern a) (?h @ va @ dquote # (t @ ?S)) = Some (gs', t @ ?S)"
    and v: "gs' ! 5 = va"
    by blast
  have after: "rsearch (named_pattern a) (t @ ?S) = None"
  proof (rule rsearch_NoneI)
    fix i
    assume "i \<le> length (t @ ?S)"
    show "rmatch (named_pattern a) (drop i (t @ ?S)) = None"
    proof (cases "i < length t")
      case True
      then show ?thesis
        using node_tail_dead[OF bl pc, of a ?S, folded t_def] unfolding dead_def by simp
    next
      case False
      then have "drop i (t @ ?S) = drop (p + (i - length t)) raw"
        by (simp add: add.commute)
      then show ?thesis
        using rsearch_None_all[OF na] by simp
    qed
  qed
  have "rfinditer (named_pattern a) ?new = rfinditer (named_pattern a) (drop ?k ?new)"
    using before len by (rule rfinditer_skip)
  also have "\<dots> = gs' # rfinditer (named_pattern a) (t @ ?S)"
    unfolding dk using at by (rule rfinditer_Some) simp
  also have "\<dots> = [gs']"
    using after by (simp add: rsearch_finditer)
  finally show ?thesis
    unfolding first node_values_def using v by simp
qed


definition one_block :: string where
  "one_block = ''(symbol (property '' @ [dquote] @ ''LCSC'' @ [dquote] @ '' '' @ [dquote] @ ''A1'' @
     [dquote] @ '' (at 0 0 0)))''"



end
